theory Spec2Isabelle
  imports Main "HOL-Library.Sublist"
begin

section \<open>Python values\<close>

text \<open>
  Text is a list of characters with code points below 256. The exceptions that the
  parser functions can raise are values of \<open>error\<close>; a function that can raise returns
  \<open>error + 'a\<close>, with \<open>Inl\<close> for the exception.
\<close>

datatype error = TypeError | ValueError | IndexError | AttributeError | UnboundLocalError

text \<open>
  \<open>is_space\<close> is \<^verbatim>\<open>str.isspace\<close> on one character, which is also the class
  \<^verbatim>\<open>\s\<close> of \<^verbatim>\<open>re\<close> on text patterns.
\<close>

definition is_space :: "char \<Rightarrow> bool" where
  "is_space c = List.member [CHR 0x09, CHR 0x0A, CHR 0x0B, CHR 0x0C, CHR 0x0D,
      CHR 0x1C, CHR 0x1D, CHR 0x1E, CHR 0x1F, CHR 0x20, CHR 0x85, CHR 0xA0] c"

text \<open>The characters at which \<^verbatim>\<open>str.splitlines\<close> breaks a line.\<close>

definition is_linebreak :: "char \<Rightarrow> bool" where
  "is_linebreak c = List.member [CHR 0x0A, CHR 0x0B, CHR 0x0C, CHR 0x0D,
      CHR 0x1C, CHR 0x1D, CHR 0x1E, CHR 0x85] c"

text \<open>\<^verbatim>\<open>s.strip()\<close>\<close>

definition strip :: "string \<Rightarrow> string" where
  "strip s = rev (dropWhile is_space (rev (dropWhile is_space s)))"

text \<open>
  \<^verbatim>\<open>s.split()\<close>: the maximal runs of characters that are not whitespace. The second
  argument holds the current run, reversed.
\<close>

fun split_words :: "string \<Rightarrow> string \<Rightarrow> string list" where
  "split_words [] w = (if w = [] then [] else [rev w])"
| "split_words (x # t) w =
     (if is_space x then (if w = [] then split_words t [] else rev w # split_words t [])
      else split_words t (x # w))"

definition py_split :: "string \<Rightarrow> string list" where
  "py_split s = split_words s []"

text \<open>
  \<^verbatim>\<open>s.splitlines()\<close>: a carriage return followed by a line feed is one break, and
  there is no empty last line after a final break.
\<close>

fun split_lines :: "string \<Rightarrow> string \<Rightarrow> string list" where
  "split_lines [] w = (if w = [] then [] else [rev w])"
| "split_lines [x] w = (if is_linebreak x then [rev w] else [rev (x # w)])"
| "split_lines (x # y # t) w =
     (if x = CHR 0x0D \<and> y = CHR 0x0A then rev w # split_lines t []
      else if is_linebreak x then rev w # split_lines (y # t) []
      else split_lines (y # t) (x # w))"

definition splitlines :: "string \<Rightarrow> string list" where
  "splitlines s = split_lines s []"

text \<open>
  \<^verbatim>\<open>int(s)\<close> on the texts that reach it in this module: an optional sign and decimal
  digits. Any other text is a \<open>ValueError\<close>.
\<close>

definition is_digit :: "char \<Rightarrow> bool" where
  "is_digit c = ((of_char CHR ''0'' :: nat) \<le> of_char c \<and> (of_char c :: nat) \<le> of_char CHR ''9'')"

definition digits_value :: "string \<Rightarrow> int" where
  "digits_value ds = foldl (\<lambda>n c. 10 * n + (int (of_char c) - 48)) 0 ds"

fun py_int :: "string \<Rightarrow> error + int" where
  "py_int [] = Inl ValueError"
| "py_int (x # t) =
     (if x = CHR ''-'' then (if t \<noteq> [] \<and> list_all is_digit t then Inr (- digits_value t) else Inl ValueError)
      else if x = CHR ''+'' then (if t \<noteq> [] \<and> list_all is_digit t then Inr (digits_value t) else Inl ValueError)
      else if list_all is_digit (x # t) then Inr (digits_value (x # t)) else Inl ValueError)"

text \<open>\<^verbatim>\<open>int(val)\<close> of a group: \<^verbatim>\<open>int(None)\<close> is a \<open>TypeError\<close>.\<close>

fun py_int_of :: "string option \<Rightarrow> error + int" where
  "py_int_of None = Inl TypeError"
| "py_int_of (Some t) = py_int t"

text \<open>
  \<^verbatim>\<open>float(v)\<close>. The value of a numeral text as a double is not modelled: every function
  that converts takes the conversion \<open>flt\<close> of texts as an argument, and the results
  below hold for each one. \<^verbatim>\<open>float(None)\<close> is a \<open>TypeError\<close>.
\<close>

fun py_float :: "(string \<Rightarrow> error + 'f) \<Rightarrow> string option \<Rightarrow> error + 'f" where
  "py_float flt None = Inl TypeError"
| "py_float flt (Some s) = flt s"

text \<open>
  A comprehension \<^verbatim>\<open>[f(x) for x in xs]\<close> whose \<open>f\<close> can raise: the first exception,
  from left to right, is the result.
\<close>

fun sequence :: "(error + 'a) list \<Rightarrow> error + 'a list" where
  "sequence [] = Inr []"
| "sequence (Inl e # rs) = Inl e"
| "sequence (Inr x # rs) = (case sequence rs of Inl e \<Rightarrow> Inl e | Inr xs \<Rightarrow> Inr (x # xs))"

text \<open>Running one step after another: an exception ends the run.\<close>

fun and_then :: "error + 'a \<Rightarrow> ('a \<Rightarrow> error + 'b) \<Rightarrow> error + 'b" where
  "and_then (Inl e) f = Inl e"
| "and_then (Inr x) f = f x"

text \<open>
  A \<^verbatim>\<open>dict\<close> is an association list in insertion order. \<^verbatim>\<open>d[k] = v\<close> keeps the
  place of a key that is present and appends a new one.
\<close>

fun dict_set :: "('k \<times> 'v) list \<Rightarrow> 'k \<Rightarrow> 'v \<Rightarrow> ('k \<times> 'v) list" where
  "dict_set [] k v = [(k, v)]"
| "dict_set ((k', v') # d) k v = (if k' = k then (k, v) # d else (k', v') # dict_set d k v)"

section \<open>Regular expressions of \<^verbatim>\<open>re\<close>\<close>

text \<open>
  The patterns of this module use literals, character classes, \<^verbatim>\<open>\A\<close>, concatenation,
  alternation, the greedy \<^verbatim>\<open>?\<close>, \<^verbatim>\<open>*\<close> and \<^verbatim>\<open>+\<close>, capturing groups and the negative
  lookahead. A character class is a list of items.
\<close>

datatype citem = Ch char | Rng char char | Whitespace

datatype regex =
    Lit string
  | Cls "citem list"
  | NCls "citem list"
  | Bos
  | Then regex regex
  | Or regex regex
  | Opt regex
  | Rep regex
  | Rep1 regex
  | Cap regex
  | NotAhead regex

fun in_item :: "char \<Rightarrow> citem \<Rightarrow> bool" where
  "in_item c (Ch d) = (c = d)"
| "in_item c (Rng a b) = ((of_char a :: nat) \<le> of_char c \<and> (of_char c :: nat) \<le> of_char b)"
| "in_item c Whitespace = is_space c"

text \<open>Groups are numbered by their opening parenthesis, from the left.\<close>

fun ngroups :: "regex \<Rightarrow> nat" where
  "ngroups (Then p q) = ngroups p + ngroups q"
| "ngroups (Or p q) = ngroups p + ngroups q"
| "ngroups (Opt p) = ngroups p"
| "ngroups (Rep p) = ngroups p"
| "ngroups (Rep1 p) = ngroups p"
| "ngroups (Cap p) = Suc (ngroups p)"
| "ngroups (NotAhead p) = ngroups p"
| "ngroups _ = 0"

fun weight :: "regex \<Rightarrow> nat" where
  "weight (Then p q) = Suc (weight p + weight q)"
| "weight (Or p q) = Suc (weight p + weight q)"
| "weight (Opt p) = Suc (weight p)"
| "weight (Rep p) = Suc (weight p)"
| "weight (Rep1 p) = Suc (Suc (weight p))"
| "weight (Cap p) = Suc (weight p)"
| "weight (NotAhead p) = Suc (weight p)"
| "weight _ = 0"

text \<open>
  The state of a match attempt: the number of characters before the current position,
  the text from the current position on, and the text of each group (\<open>None\<close> for a
  group that has not taken part).

  \<open>mt p b st\<close> lists the states in which \<open>p\<close> can end when started in \<open>st\<close>, in the order
  in which the backtracking matcher tries them: the head of the list is the match that
  \<^verbatim>\<open>re\<close> reports. \<open>b\<close> is the number of groups that open to the left of \<open>p\<close>. A
  repetition goes on only after an iteration that consumed text (in this module no
  repeated pattern matches the empty text).
\<close>

type_synonym mstate = "nat \<times> string \<times> string option list"

function mt :: "regex \<Rightarrow> nat \<Rightarrow> mstate \<Rightarrow> mstate list" where
  "mt (Lit w) b (k, s, c) =
     (if prefix w s then [(k + length w, drop (length w) s, c)] else [])"
| "mt (Cls xs) b (k, s, c) =
     (case s of [] \<Rightarrow> [] | x # t \<Rightarrow> if list_ex (in_item x) xs then [(Suc k, t, c)] else [])"
| "mt (NCls xs) b (k, s, c) =
     (case s of [] \<Rightarrow> [] | x # t \<Rightarrow> if list_ex (in_item x) xs then [] else [(Suc k, t, c)])"
| "mt Bos b (k, s, c) = (if k = 0 then [(k, s, c)] else [])"
| "mt (Then p q) b (k, s, c) = concat (map (mt q (b + ngroups p)) (mt p b (k, s, c)))"
| "mt (Or p q) b (k, s, c) = mt p b (k, s, c) @ mt q (b + ngroups p) (k, s, c)"
| "mt (Opt p) b (k, s, c) = mt p b (k, s, c) @ [(k, s, c)]"
| "mt (Rep p) b (k, s, c) =
     concat (map (\<lambda>(k', s', c'). if length s' < length s then mt (Rep p) b (k', s', c') else [])
                 (mt p b (k, s, c))) @ [(k, s, c)]"
| "mt (Rep1 p) b (k, s, c) = concat (map (mt (Rep p) b) (mt p b (k, s, c)))"
| "mt (Cap p) b (k, s, c) =
     map (\<lambda>(k', s', c'). (k', s', c'[b := Some (take (k' - k) s)])) (mt p (Suc b) (k, s, c))"
| "mt (NotAhead p) b (k, s, c) = (if mt p b (k, s, c) = [] then [(k, s, c)] else [])"
  by pat_completeness auto
termination
  by (relation "measures [\<lambda>(r, b, k, s, c). weight r, \<lambda>(r, b, k, s, c). length s]") auto

declare mt.simps [simp del]

text \<open>
  A match: where it starts, where it ends, its text and its groups.
\<close>

type_synonym rmatch = "nat \<times> nat \<times> string \<times> string option list"

definition attempts :: "regex \<Rightarrow> nat \<Rightarrow> string \<Rightarrow> mstate list" where
  "attempts p k s = mt p 0 (k, s, replicate (ngroups p) None)"

text \<open>
  \<^verbatim>\<open>re.search\<close>: the first position, from the left, at which the pattern matches.
\<close>

fun search_at :: "regex \<Rightarrow> nat \<Rightarrow> string \<Rightarrow> rmatch option" where
  "search_at p k [] =
     (case attempts p k [] of [] \<Rightarrow> None | (k', s', c') # _ \<Rightarrow> Some (k, k', [], c'))"
| "search_at p k (x # t) =
     (case attempts p k (x # t) of
        [] \<Rightarrow> search_at p (Suc k) t
      | (k', s', c') # _ \<Rightarrow> Some (k, k', take (k' - k) (x # t), c'))"

definition search :: "regex \<Rightarrow> string \<Rightarrow> rmatch option" where
  "search p s = search_at p 0 s"

text \<open>
  \<^verbatim>\<open>re.finditer\<close>: the matches that do not overlap, from the left. After an empty match
  the next match at the same position must not be empty (\<open>adv\<close>).
\<close>

function finditer_at :: "regex \<Rightarrow> bool \<Rightarrow> nat \<Rightarrow> string \<Rightarrow> rmatch list" where
  "finditer_at p adv k s =
     (case filter (\<lambda>(k', s', c'). if adv then length s' < length s else True) (attempts p k s) of
        [] \<Rightarrow> (case s of [] \<Rightarrow> [] | x # t \<Rightarrow> finditer_at p False (Suc k) t)
      | (k', s', c') # _ \<Rightarrow>
          (k, k', take (k' - k) s, c') #
          (if length s' < length s then finditer_at p False k' s'
           else if adv then [] else finditer_at p True k s))"
  by pat_completeness auto
termination
  by (relation "measures [\<lambda>(p, adv, k, s). length s, \<lambda>(p, adv, k, s). if adv then 0 else 1]") auto

declare finditer_at.simps [simp del]

definition finditer :: "regex \<Rightarrow> string \<Rightarrow> rmatch list" where
  "finditer p s = finditer_at p False 0 s"

text \<open>
  The pieces of the text between the matches: what \<^verbatim>\<open>re.split\<close> returns for a pattern
  with no group, and what \<^verbatim>\<open>re.sub\<close> keeps.
\<close>

fun between :: "string \<Rightarrow> nat \<Rightarrow> rmatch list \<Rightarrow> string list" where
  "between s cur [] = [drop cur s]"
| "between s cur ((i, j, m) # ms) = take (i - cur) (drop cur s) # between s j ms"

text \<open>
  Matches in the order of the text: each starts at or after position \<open>k\<close> and at or after
  the end of the one before.
\<close>

fun ordered_from :: "nat \<Rightarrow> rmatch list \<Rightarrow> bool" where
  "ordered_from k [] = True"
| "ordered_from k ((i, j, m, gs) # ms) = (k \<le> i \<and> i \<le> j \<and> ordered_from j ms)"

text \<open>
  \<open>avoids x p\<close>: no literal and no character class of \<open>p\<close> admits the character \<open>x\<close>, so
  that no match of \<open>p\<close> contains it. A lookahead consumes nothing.
\<close>

fun avoids :: "char \<Rightarrow> regex \<Rightarrow> bool" where
  "avoids x (Lit w) = (x \<notin> set w)"
| "avoids x (Cls xs) = (\<not> list_ex (in_item x) xs)"
| "avoids x (NCls xs) = list_ex (in_item x) xs"
| "avoids x Bos = True"
| "avoids x (Then p q) = (avoids x p \<and> avoids x q)"
| "avoids x (Or p q) = (avoids x p \<and> avoids x q)"
| "avoids x (Opt p) = avoids x p"
| "avoids x (Rep p) = avoids x p"
| "avoids x (Rep1 p) = avoids x p"
| "avoids x (Cap p) = avoids x p"
| "avoids x (NotAhead p) = True"

section \<open>The pattern vocabulary of \<^verbatim>\<open>autoparse.pattern\<close>\<close>

text \<open>
  The module builds its patterns from the combinators and constants of
  \<^verbatim>\<open>autoparse.pattern\<close>, a library outside this repository, which produce the source
  text of a regular expression. Each one is given here with the expression that the
  library produces for it. \<open>cat\<close> is the concatenation \<^verbatim>\<open>p1 + p2 + ...\<close> of pattern
  texts; every alternation and repetition of the library is wrapped in a non-capturing
  group, so that concatenating the texts concatenates the patterns.
\<close>

fun cat :: "regex list \<Rightarrow> regex" where
  "cat [] = Lit []"
| "cat [p] = p"
| "cat (p # ps) = Then p (cat ps)"

text \<open>\<^verbatim>\<open>escape(s)\<close>: the text \<open>s\<close> itself.\<close>

definition escape :: "string \<Rightarrow> regex" where
  "escape w = Lit w"

text \<open>\<^verbatim>\<open>maybe(p) = (?:p)?\<close>\<close>

definition maybe :: "regex \<Rightarrow> regex" where
  "maybe p = Opt p"

text \<open>\<^verbatim>\<open>zero_or_more(p) = (?:p)*\<close>\<close>

definition zero_or_more :: "regex \<Rightarrow> regex" where
  "zero_or_more p = Rep p"

text \<open>\<^verbatim>\<open>one_or_more(p) = (?:p)+\<close>\<close>

definition one_or_more :: "regex \<Rightarrow> regex" where
  "one_or_more p = Rep1 p"

text \<open>\<^verbatim>\<open>one_of_these([p1, p2, ...]) = (?:p1|p2|...)\<close>\<close>

fun one_of_these :: "regex list \<Rightarrow> regex" where
  "one_of_these [] = Lit []"
| "one_of_these [p] = p"
| "one_of_these (p # ps) = Or p (one_of_these ps)"

text \<open>\<^verbatim>\<open>capturing(p) = (p)\<close>\<close>

definition capturing :: "regex \<Rightarrow> regex" where
  "capturing p = Cap p"

text \<open>\<^verbatim>\<open>not_followed_by(p) = (?!p)\<close>\<close>

definition not_followed_by :: "regex \<Rightarrow> regex" where
  "not_followed_by p = NotAhead p"

text \<open>\<^verbatim>\<open>series(p, sep) = p + zero_or_more(sep + p)\<close>\<close>

definition series :: "regex \<Rightarrow> regex \<Rightarrow> regex" where
  "series p sep = cat [p, zero_or_more (cat [sep, p])]"

definition STRING_START :: regex where
  "STRING_START = Bos"

text \<open>\<^verbatim>\<open>SPACE = \s\<close>, \<^verbatim>\<open>SPACES = (?:\s)+\<close>, \<^verbatim>\<open>NONSPACE = \S\<close>\<close>

definition SPACE :: regex where
  "SPACE = Cls [Whitespace]"

definition SPACES :: regex where
  "SPACES = one_or_more SPACE"

definition NONSPACE :: regex where
  "NONSPACE = NCls [Whitespace]"

text \<open>\<^verbatim>\<open>LINESPACE = [ \t]\<close>, \<^verbatim>\<open>LINESPACES = (?:[ \t])+\<close>\<close>

definition LINESPACE :: regex where
  "LINESPACE = Cls [Ch CHR '' '', Ch CHR 0x09]"

definition LINESPACES :: regex where
  "LINESPACES = one_or_more LINESPACE"

text \<open>\<^verbatim>\<open>padded(p) = (?:[ \t])* + p + (?:[ \t])*\<close>\<close>

definition padded :: "regex \<Rightarrow> regex" where
  "padded p = cat [zero_or_more LINESPACE, p, zero_or_more LINESPACE]"

text \<open>\<^verbatim>\<open>LETTER = [A-Za-z]\<close>, \<^verbatim>\<open>DIGIT = [0-9]\<close>\<close>

definition LETTER :: regex where
  "LETTER = Cls [Rng CHR ''A'' CHR ''Z'', Rng CHR ''a'' CHR ''z'']"

definition DIGIT :: regex where
  "DIGIT = Cls [Rng CHR ''0'' CHR ''9'']"

definition PLUS :: regex where
  "PLUS = escape ''+''"

definition MINUS :: regex where
  "MINUS = escape ''-''"

definition PERIOD :: regex where
  "PERIOD = escape ''.''"

definition UNDERSCORE :: regex where
  "UNDERSCORE = escape ''_''"

definition SIGN :: regex where
  "SIGN = one_of_these [PLUS, MINUS]"

text \<open>The numerals: integers, floats with a period, and either with an exponent.\<close>

definition UNSIGNED_INTEGER :: regex where
  "UNSIGNED_INTEGER = one_or_more DIGIT"

definition UNSIGNED_FLOAT :: regex where
  "UNSIGNED_FLOAT = one_of_these
     [cat [zero_or_more DIGIT, PERIOD, one_or_more DIGIT],
      cat [one_or_more DIGIT, PERIOD, zero_or_more DIGIT]]"

definition INTEGER :: regex where
  "INTEGER = cat [maybe SIGN, UNSIGNED_INTEGER]"

definition FLOAT :: regex where
  "FLOAT = cat [maybe SIGN, UNSIGNED_FLOAT]"

definition EXPONENTIAL_INTEGER :: regex where
  "EXPONENTIAL_INTEGER = cat [INTEGER, one_of_these [Lit ''E'', Lit ''e''], INTEGER]"

definition EXPONENTIAL_FLOAT :: regex where
  "EXPONENTIAL_FLOAT = cat [FLOAT, one_of_these [Lit ''E'', Lit ''e''], INTEGER]"

definition NUMBER :: regex where
  "NUMBER = one_of_these [EXPONENTIAL_FLOAT, EXPONENTIAL_INTEGER, FLOAT, INTEGER]"

section \<open>The finders of \<^verbatim>\<open>autoparse.find\<close>\<close>

text \<open>
  The finders call \<^verbatim>\<open>re.search\<close>, \<^verbatim>\<open>re.findall\<close>, \<^verbatim>\<open>re.sub\<close> and \<^verbatim>\<open>re.split\<close> with
  the flag \<^verbatim>\<open>re.MULTILINE\<close>, which changes the meaning of \<^verbatim>\<open>^\<close> and \<^verbatim>\<open>$\<close> only; no
  pattern of this module uses them. Matching is case-sensitive.
\<close>

text \<open>
  What \<^verbatim>\<open>first_capture\<close> returns for a match: the text of the group when the pattern has
  exactly one group (\<^verbatim>\<open>match.group(1)\<close>), the tuple of all groups otherwise
  (\<^verbatim>\<open>match.groups()\<close>). A group that took no part is \<^verbatim>\<open>None\<close>.
\<close>

datatype captures = Single "string option" | Groups "string option list"

text \<open>
  An item of \<^verbatim>\<open>re.findall\<close>: the whole match for a pattern with no group, the text of
  the group for one group, the tuple of the groups otherwise. A group that took no part
  is the empty text.
\<close>

datatype found = Text string | Texts "string list"

definition has_match :: "regex \<Rightarrow> string \<Rightarrow> bool" where
  "has_match p s = (search p s \<noteq> None)"

definition first_capture :: "regex \<Rightarrow> string \<Rightarrow> captures option" where
  "first_capture p s =
     (case search p s of
        None \<Rightarrow> None
      | Some (i, j, m, gs) \<Rightarrow> Some (if length gs = 1 then Single (gs ! 0) else Groups gs))"

definition group_text :: "string option \<Rightarrow> string" where
  "group_text g = (case g of None \<Rightarrow> [] | Some t \<Rightarrow> t)"

definition found_of :: "rmatch \<Rightarrow> found" where
  "found_of r =
     (case r of (i, j, m, gs) \<Rightarrow>
        (case gs of [] \<Rightarrow> Text m | [g] \<Rightarrow> Text (group_text g) | _ \<Rightarrow> Texts (map group_text gs)))"

definition all_captures :: "regex \<Rightarrow> string \<Rightarrow> found list" where
  "all_captures p s = map found_of (finditer p s)"

text \<open>\<^verbatim>\<open>remove(p, s) = re.sub(p, '', s)\<close>\<close>

definition remove :: "regex \<Rightarrow> string \<Rightarrow> string" where
  "remove p s = concat (between s 0 (finditer p s))"

text \<open>\<^verbatim>\<open>split(p, s) = tuple(re.split(p, s))\<close>, for a pattern with no group.\<close>

definition split :: "regex \<Rightarrow> string \<Rightarrow> string list" where
  "split p s = between s 0 (finditer p s)"

text \<open>
  Iterating over the result of \<^verbatim>\<open>first_capture\<close>, as \<^verbatim>\<open>for val in cap\<close> does: a tuple
  gives its groups, a text gives its characters, and \<^verbatim>\<open>None\<close> cannot be iterated.
\<close>

fun iter_captures :: "captures \<Rightarrow> error + string option list" where
  "iter_captures (Groups gs) = Inr gs"
| "iter_captures (Single (Some t)) = Inr (map (\<lambda>x. Some [x]) t)"
| "iter_captures (Single None) = Inl TypeError"

fun iter_found :: "found \<Rightarrow> string list" where
  "iter_found (Texts ts) = ts"
| "iter_found (Text t) = map (\<lambda>x. [x]) t"

section \<open>\<^verbatim>\<open>chemkin_io.parser.reaction\<close>\<close>

text \<open>
  The constants of the module. A species name starts with a character of
  \<^verbatim>\<open>[^\s=+\-]\<close>, goes on with letters, digits, the text \<^verbatim>\<open>(+)\<close>, characters of
  \<^verbatim>\<open>[#,()\-]\<close> and square brackets, and ends with any number of \<^verbatim>\<open>+\<close>.
\<close>

definition CHEMKIN_ARROW :: regex where
  "CHEMKIN_ARROW = cat [maybe (escape ''<''), escape ''='', maybe (escape ''>'')]"

definition CHEMKIN_PLUS_EM :: regex where
  "CHEMKIN_PLUS_EM = cat [PLUS, Lit ''M'']"

definition CHEMKIN_PAREN_PLUS_EM :: regex where
  "CHEMKIN_PAREN_PLUS_EM = cat [escape ''('', PLUS, Lit ''M'', escape '')'']"

definition SPECIES_NAME_PATTERN :: regex where
  "SPECIES_NAME_PATTERN = cat
     [NCls [Whitespace, Ch CHR ''='', Ch CHR ''+'', Ch CHR ''-''],
      zero_or_more (one_of_these
        [LETTER, DIGIT, escape ''(+)'',
         Cls [Ch CHR ''#'', Ch CHR '','', Ch CHR ''('', Ch CHR '')'', Ch CHR ''-''],
         escape ''['', escape '']'']),
      zero_or_more PLUS]"

definition SPECIES_NAMES_PATTERN :: regex where
  "SPECIES_NAMES_PATTERN = series (padded SPECIES_NAME_PATTERN) (padded PLUS)"

definition COEFF_PATTERN :: regex where
  "COEFF_PATTERN = cat [NUMBER, LINESPACES, NUMBER, LINESPACES, NUMBER]"

definition first_line_pattern :: "regex \<Rightarrow> regex \<Rightarrow> regex \<Rightarrow> regex" where
  "first_line_pattern rct_ptt prd_ptt coeff_ptt =
     cat [rct_ptt, padded CHEMKIN_ARROW, prd_ptt, LINESPACES, coeff_ptt]"

text \<open>
  \<^verbatim>\<open>_interpret_reagent_count\<close>: the unpacking \<^verbatim>\<open>cnt, rgt = ...\<close> raises when there is
  no match. The pattern has two groups; a count that is empty or \<^verbatim>\<open>None\<close> stands
  for one. A match fills both groups (\<open>count_pattern_groups\<close> below), so the name is
  never \<^verbatim>\<open>None\<close>.
\<close>

definition count_pattern :: regex where
  "count_pattern = cat [STRING_START, capturing (maybe DIGIT), capturing (one_or_more NONSPACE)]"

definition interpret_reagent_count :: "string \<Rightarrow> error + string list" where
  "interpret_reagent_count rgt_cnt_str =
     (case first_capture count_pattern rgt_cnt_str of
        Some (Groups [cnt, Some rgt]) \<Rightarrow>
          (if cnt \<noteq> None \<and> cnt \<noteq> Some [] then
             (case py_int_of cnt of Inl e \<Rightarrow> Inl e | Inr n \<Rightarrow> Inr (replicate (nat n) rgt))
           else Inr (replicate 1 rgt))
      | _ \<Rightarrow> Inl TypeError)"

text \<open>
  \<^verbatim>\<open>_split_reagent_string\<close>: \<^verbatim>\<open>re.sub\<close> raises \<open>TypeError\<close> on an argument that is not
  a text, as \<^verbatim>\<open>None\<close> is.
\<close>

definition split_reagent_string :: "captures option \<Rightarrow> error + string list" where
  "split_reagent_string rgt_str =
     (case rgt_str of
        Some (Single (Some s0)) \<Rightarrow>
          (let s1 = remove LINESPACES s0;
               s2 = remove CHEMKIN_PAREN_PLUS_EM s1;
               s3 = remove CHEMKIN_PLUS_EM s2;
               pattern = cat [PLUS, not_followed_by PLUS];
               rgt_cnt_strs = split pattern s3
           in case sequence (map interpret_reagent_count rgt_cnt_strs) of
                Inl e \<Rightarrow> Inl e
              | Inr rgts \<Rightarrow> Inr (concat rgts))
      | _ \<Rightarrow> Inl TypeError)"

definition reactant_names :: "string \<Rightarrow> error + string list" where
  "reactant_names rxn_dstr =
     (let pattern = first_line_pattern (capturing SPECIES_NAMES_PATTERN)
                      SPECIES_NAMES_PATTERN COEFF_PATTERN
      in split_reagent_string (first_capture pattern rxn_dstr))"

definition product_names :: "string \<Rightarrow> error + string list" where
  "product_names rxn_dstr =
     (let pattern = first_line_pattern SPECIES_NAMES_PATTERN
                      (capturing SPECIES_NAMES_PATTERN) COEFF_PATTERN
      in split_reagent_string (first_capture pattern rxn_dstr))"

text \<open>
  \<^verbatim>\<open>high_p_parameters\<close>. \<open>ap_cast\<close> is the cast of \<^verbatim>\<open>autoparse\<close>, applied to the words of
  each captured text; it is an argument, like \<open>flt\<close>. A tuple has no \<^verbatim>\<open>split\<close>.
\<close>

fun words_of :: "found \<Rightarrow> error + string list" where
  "words_of (Text t) = Inr (py_split t)"
| "words_of (Texts ts) = Inl AttributeError"

definition high_p_parameters :: "(string list \<Rightarrow> error + 'v) \<Rightarrow> string \<Rightarrow> error + 'v list option" where
  "high_p_parameters ap_cast rxn_dstr =
     (let pattern = first_line_pattern SPECIES_NAMES_PATTERN SPECIES_NAMES_PATTERN
                      (capturing COEFF_PATTERN);
          string_lst = all_captures pattern rxn_dstr
      in if string_lst \<noteq> [] then
           and_then (sequence (map (\<lambda>string. and_then (words_of string) ap_cast) string_lst))
             (\<lambda>params. Inr (Some params))
         else Inr None)"

text \<open>\<^verbatim>\<open>[float(val) for val in cap]\<close>\<close>

definition floats :: "(string \<Rightarrow> error + 'f) \<Rightarrow> captures \<Rightarrow> error + 'f list" where
  "floats flt cap = and_then (iter_captures cap) (\<lambda>vals. sequence (map (py_float flt) vals))"

definition troe_pattern1 :: regex where
  "troe_pattern1 = cat
     [Lit ''TROE'',
      zero_or_more SPACE, escape ''/'',
      SPACES, capturing NUMBER,
      SPACES, capturing NUMBER,
      SPACES, capturing NUMBER,
      SPACES, maybe (capturing NUMBER),
      zero_or_more SPACE, escape ''/'']"

definition troe_pattern2 :: regex where
  "troe_pattern2 = cat
     [Lit ''TROE'',
      zero_or_more SPACE, escape ''/'',
      SPACES, capturing NUMBER,
      SPACES, capturing NUMBER,
      SPACES, capturing NUMBER,
      zero_or_more SPACE, escape ''/'']"

definition troe_parameters :: "(string \<Rightarrow> error + 'f) \<Rightarrow> string \<Rightarrow> error + 'f option list option" where
  "troe_parameters flt rxn_dstr =
     (let cap1 = first_capture troe_pattern1 rxn_dstr;
          cap2 = first_capture troe_pattern2 rxn_dstr
      in case cap1 of
           Some c1 \<Rightarrow> and_then (floats flt c1) (\<lambda>params. Inr (Some (map Some params)))
         | None \<Rightarrow>
             (case cap2 of
                Some c2 \<Rightarrow> and_then (floats flt c2) (\<lambda>params. Inr (Some (map Some params @ [None])))
              | None \<Rightarrow> Inr None))"

text \<open>\<^verbatim>\<open>chebyshev_parameters\<close>: the dictionary with its four keys is a record.\<close>

record 'f chebyshev =
  t_limits :: "'f list"
  p_limits :: "'f list"
  alpha_dim :: "int list"
  alpha_elm :: "'f list list"

definition temp_pattern :: regex where
  "temp_pattern = cat
     [Lit ''TCHEB'', zero_or_more SPACE, escape ''/'',
      SPACES, capturing FLOAT,
      SPACES, capturing FLOAT,
      zero_or_more SPACE, escape ''/'']"

definition pressure_pattern :: regex where
  "pressure_pattern = cat
     [Lit ''PCHEB'', zero_or_more SPACE, escape ''/'',
      SPACES, capturing FLOAT,
      SPACES, capturing FLOAT,
      zero_or_more SPACE, escape ''/'']"

definition alpha_dimension_pattern :: regex where
  "alpha_dimension_pattern = cat
     [Lit ''CHEB'', zero_or_more SPACE, escape ''/'',
      SPACES, capturing INTEGER,
      SPACES, capturing INTEGER,
      zero_or_more SPACE, escape ''/'']"

definition alpha_elements_pattern :: regex where
  "alpha_elements_pattern = cat
     [Lit ''CHEB'', zero_or_more SPACE, escape ''/'',
      series (capturing (cat [SPACES, capturing EXPONENTIAL_FLOAT])) SPACES,
      zero_or_more SPACE, escape ''/'']"

definition chebyshev_parameters :: "(string \<Rightarrow> error + 'f) \<Rightarrow> string \<Rightarrow> error + 'f chebyshev option" where
  "chebyshev_parameters flt rxn_dstr =
     (let cheb_temps = first_capture temp_pattern rxn_dstr;
          cheb_pressures = first_capture pressure_pattern rxn_dstr;
          alpha_dims = first_capture alpha_dimension_pattern rxn_dstr;
          alpha_elm = all_captures alpha_elements_pattern rxn_dstr
      in case (cheb_temps, cheb_pressures, alpha_dims, alpha_elm) of
           (Some temps, Some pressures, Some dims, row # rows) \<Rightarrow>
             and_then (floats flt temps) (\<lambda>tl.
             and_then (floats flt pressures) (\<lambda>pl.
             and_then (and_then (iter_captures dims) (\<lambda>vals. sequence (map py_int_of vals))) (\<lambda>ad.
             and_then (sequence (map (\<lambda>r. sequence (map flt (iter_found r))) (row # rows))) (\<lambda>ae.
             Inr (Some \<lparr>t_limits = tl, p_limits = pl, alpha_dim = ad, alpha_elm = ae\<rparr>)))))
         | _ \<Rightarrow> Inr None)"

text \<open>
  \<^verbatim>\<open>plog_parameters\<close>. The loop over the matches threads the dictionary;
  \<^verbatim>\<open>params[0]\<close> and \<^verbatim>\<open>params[1:]\<close> are the head and the tail of the tuple.
\<close>

definition plog_pattern :: regex where
  "plog_pattern = cat
     [Lit ''PLOG'',
      zero_or_more SPACE, escape ''/'',
      zero_or_more SPACE, capturing NUMBER,
      one_or_more SPACE, capturing NUMBER,
      one_or_more SPACE, capturing NUMBER,
      one_or_more SPACE, capturing NUMBER,
      zero_or_more SPACE, escape ''/'']"

fun plog_loop :: "(string \<Rightarrow> error + 'f) \<Rightarrow> found list \<Rightarrow> ('f \<times> 'f list list) list
    \<Rightarrow> error + ('f \<times> 'f list list) list" where
  "plog_loop flt [] params_dct = Inr params_dct"
| "plog_loop flt (params # rest) params_dct =
     (case iter_found params of
        [] \<Rightarrow> Inl IndexError
      | p0 # ps \<Rightarrow>
          and_then (flt p0) (\<lambda>pressure.
          and_then (sequence (map flt ps)) (\<lambda>vals.
          plog_loop flt rest
            (case map_of params_dct pressure of
               None \<Rightarrow> dict_set params_dct pressure [vals]
             | Some fits \<Rightarrow> dict_set params_dct pressure (fits @ [vals])))))"

definition plog_parameters :: "(string \<Rightarrow> error + 'f) \<Rightarrow> string
    \<Rightarrow> error + ('f \<times> 'f list list) list option" where
  "plog_parameters flt rxn_dstr =
     (let params_lst = all_captures plog_pattern rxn_dstr
      in if params_lst \<noteq> [] then
           and_then (plog_loop flt params_lst []) (\<lambda>params_dct. Inr (Some params_dct))
         else Inr None)"

text \<open>
  \<^verbatim>\<open>buffer_enhance_factors\<close>. The inner loop stores the pairs of one line; the outer
  loop goes over the lines and carries \<open>factors\<close>, which a line with pairs starts
  again from the empty dictionary.
\<close>

definition bad_strings :: "regex list" where
  "bad_strings = [Lit ''DUP'', Lit ''LOW'', Lit ''TROE'', Lit ''CHEB'', Lit ''PLOG'',
     first_line_pattern SPECIES_NAMES_PATTERN SPECIES_NAMES_PATTERN COEFF_PATTERN]"

definition species_char :: regex where
  "species_char = one_of_these [LETTER, DIGIT, escape ''('', escape '')'', UNDERSCORE]"

definition factor_pattern :: regex where
  "factor_pattern = cat
     [capturing (one_or_more species_char),
      escape ''/'', maybe SPACE,
      capturing NUMBER,
      escape ''/'']"

fun bath_loop :: "(string \<Rightarrow> error + 'f) \<Rightarrow> found list \<Rightarrow> (string \<times> 'f) list
    \<Rightarrow> error + (string \<times> 'f) list" where
  "bath_loop flt [] factors = Inr factors"
| "bath_loop flt (bath # rest) factors =
     (case iter_found bath of
        b0 # b1 # _ \<Rightarrow> and_then (flt b1) (\<lambda>v. bath_loop flt rest (dict_set factors b0 v))
      | _ \<Rightarrow> Inl IndexError)"

fun line_loop :: "(string \<Rightarrow> error + 'f) \<Rightarrow> string list \<Rightarrow> (string \<times> 'f) list option
    \<Rightarrow> error + (string \<times> 'f) list option" where
  "line_loop flt [] factors = Inr factors"
| "line_loop flt (line # rest) factors =
     (if \<not> list_ex (\<lambda>string. has_match string line) bad_strings then
        (let baths = all_captures factor_pattern line
         in if baths \<noteq> [] then
              and_then (bath_loop flt baths []) (\<lambda>d. line_loop flt rest (Some d))
            else line_loop flt rest factors)
      else line_loop flt rest factors)"

definition buffer_enhance_factors :: "(string \<Rightarrow> error + 'f) \<Rightarrow> string
    \<Rightarrow> error + (string \<times> 'f) list option" where
  "buffer_enhance_factors flt rxn_dstr =
     (if has_match (Lit ''LOW'') rxn_dstr \<or> has_match (Lit ''TROE'') rxn_dstr then
        line_loop flt (splitlines rxn_dstr) None
      else Inr None)"

text \<open>
  \<^verbatim>\<open>data_strings\<close>. \<^verbatim>\<open>util.headlined_sections\<close>, which cuts the block into the
  entries, is the argument \<open>headlined_sections\<close>.
\<close>

definition data_strings :: "(string \<Rightarrow> regex \<Rightarrow> string list) \<Rightarrow> string \<Rightarrow> string list" where
  "data_strings headlined_sections block_str = headlined_sections (strip block_str) CHEMKIN_ARROW"

text \<open>
  \<^verbatim>\<open>data_dct\<close>. With a \<open>data_entry\<close> other than \<^verbatim>\<open>'strings'\<close> the dictionary is never
  bound, and returning it raises.
\<close>

fun data_loop :: "string list \<Rightarrow> ((string list \<times> string list) \<times> string) list
    \<Rightarrow> error + ((string list \<times> string list) \<times> string) list" where
  "data_loop [] rxn_dct = Inr rxn_dct"
| "data_loop (string # rest) rxn_dct =
     and_then (reactant_names string) (\<lambda>rct_names.
     and_then (product_names string) (\<lambda>prd_names.
     (let key = (rct_names, prd_names)
      in data_loop rest
           (case map_of rxn_dct key of
              None \<Rightarrow> dict_set rxn_dct key string
            | Some text \<Rightarrow> dict_set rxn_dct key (text @ [CHR 0x0A] @ string)))))"

definition data_dct :: "(string \<Rightarrow> regex \<Rightarrow> string list) \<Rightarrow> string \<Rightarrow> string
    \<Rightarrow> error + ((string list \<times> string list) \<times> string) list" where
  "data_dct headlined_sections block_str data_entry =
     (let rxn_dstr_lst = data_strings headlined_sections block_str
      in if data_entry = ''strings'' then data_loop rxn_dstr_lst []
         else Inl UnboundLocalError)"

section \<open>Notions for the statements about patterns\<close>

text \<open>
  \<open>uncap p\<close> is \<open>p\<close> with every group made non-capturing. Two states are at the same
  place when they agree on the position and on the rest of the text.
\<close>

fun uncap :: "regex \<Rightarrow> regex" where
  "uncap (Then p q) = Then (uncap p) (uncap q)"
| "uncap (Or p q) = Or (uncap p) (uncap q)"
| "uncap (Opt p) = Opt (uncap p)"
| "uncap (Rep p) = Rep (uncap p)"
| "uncap (Rep1 p) = Rep1 (uncap p)"
| "uncap (Cap p) = uncap p"
| "uncap (NotAhead p) = NotAhead (uncap p)"
| "uncap p = p"

definition same_place :: "mstate \<Rightarrow> mstate \<Rightarrow> bool" where
  "same_place st st' = (fst st = fst st' \<and> fst (snd st) = fst (snd st'))"

section \<open>Notions for the statements about reagent texts\<close>

text \<open>
  The tokens of a reagent text joined by \<^verbatim>\<open>+\<close>, as the reaction equation writes them.
\<close>

fun join_plus :: "string list \<Rightarrow> string" where
  "join_plus [] = []"
| "join_plus [t] = t"
| "join_plus (t # ts) = t @ CHR ''+'' # join_plus ts"





section \<open>Properties of the matcher\<close>

text \<open>
  A match attempt only moves forward: the state it ends in is the start state with a
  prefix of the text consumed, and it has as many groups as the start state.
\<close>

lemma mt_step:
  "(k', s', c') \<in> set (mt p b (k, s, c)) \<Longrightarrow>
     (\<exists>w. s = w @ s' \<and> k' = k + length w) \<and> length c' = length c"
proof (induction p b "(k, s, c)" arbitrary: k s c k' s' c' rule: mt.induct)
  case (1 w b k s c)
  then show ?case by (auto split: if_splits simp: prefix_def mt.simps(1))
next
  case (2 xs b k s c)
  then show ?case by (cases s) (auto split: if_splits simp: mt.simps(2))
next
  case (3 xs b k s c)
  then show ?case by (cases s) (auto split: if_splits simp: mt.simps(3))
next
  case (4 b k s c)
  then show ?case by (auto split: if_splits simp: mt.simps(4))
next
  case (5 p q b k s c)
  from "5.prems" obtain k1 s1 c1 where
    a: "(k1, s1, c1) \<in> set (mt p b (k, s, c))" and
    b: "(k', s', c') \<in> set (mt q (b + ngroups p) (k1, s1, c1))"
    by (auto simp: mt.simps(5))
  from "5.hyps"(1)[OF a] obtain w1 where a': "s = w1 @ s1" "k1 = k + length w1" "length c1 = length c"
    by auto
  from "5.hyps"(2)[OF a b] obtain w2 where b': "s1 = w2 @ s'" "k' = k1 + length w2" "length c' = length c1"
    by auto
  from a' b' have "s = (w1 @ w2) @ s' \<and> k' = k + length (w1 @ w2)" by simp
  with a' b' show ?case by metis
next
  case (6 p q b k s c)
  from "6.prems" have "(k', s', c') \<in> set (mt p b (k, s, c)) \<or> (k', s', c') \<in> set (mt q (b + ngroups p) (k, s, c))"
    by (simp add: mt.simps(6))
  with "6.hyps" show ?case by blast
next
  case (7 p b k s c)
  from "7.prems" have "(k', s', c') \<in> set (mt p b (k, s, c)) \<or> (k', s', c') = (k, s, c)"
    by (auto simp: mt.simps(7))
  with "7.hyps" show ?case by auto
next
  case (8 p b k s c)
  from "8.prems" have "(k', s', c') \<in> set (concat (map (\<lambda>(k', s', c'). if length s' < length s then mt (Rep p) b (k', s', c') else [])
                 (mt p b (k, s, c))) @ [(k, s, c)])"
    by (subst (asm) mt.simps(8))
  then consider
    (stop) "(k', s', c') = (k, s, c)" |
    (more) k1 s1 c1 where "(k1, s1, c1) \<in> set (mt p b (k, s, c))" "length s1 < length s"
      "(k', s', c') \<in> set (mt (Rep p) b (k1, s1, c1))"
    by (auto split: if_splits)
  then show ?case
  proof cases
    case stop
    then show ?thesis by simp
  next
    case more
    from "8.hyps"(1)[OF more(1)] obtain w1 where a': "s = w1 @ s1" "k1 = k + length w1" "length c1 = length c"
      by auto
    from "8.hyps"(2)[OF more(1) refl refl more(2) more(3)]
    obtain w2 where b': "s1 = w2 @ s'" "k' = k1 + length w2" "length c' = length c1"
      by auto
    from a' b' have "s = (w1 @ w2) @ s' \<and> k' = k + length (w1 @ w2)" by simp
    with a' b' show ?thesis by metis
  qed
next
  case (9 p b k s c)
  from "9.prems" obtain k1 s1 c1 where
    a: "(k1, s1, c1) \<in> set (mt p b (k, s, c))" and
    b: "(k', s', c') \<in> set (mt (Rep p) b (k1, s1, c1))"
    by (auto simp: mt.simps(9))
  from "9.hyps"(1)[OF a] obtain w1 where a': "s = w1 @ s1" "k1 = k + length w1" "length c1 = length c"
    by auto
  from "9.hyps"(2)[OF a b] obtain w2 where b': "s1 = w2 @ s'" "k' = k1 + length w2" "length c' = length c1"
    by auto
  from a' b' have "s = (w1 @ w2) @ s' \<and> k' = k + length (w1 @ w2)" by simp
  with a' b' show ?case by metis
next
  case (10 p b k s c)
  from "10.prems" obtain c1 where a: "(k', s', c1) \<in> set (mt p (Suc b) (k, s, c))"
    and c: "c' = c1[b := Some (take (k' - k) s)]"
    by (auto simp: mt.simps(10))
  from "10.hyps"[OF a] c show ?case by auto
next
  case (11 p b k s c)
  then show ?case by (auto split: if_splits simp: mt.simps(11))
qed

text \<open>The groups of a match are those of the pattern.\<close>

lemma attempts_step:
  assumes "(k', s', c') \<in> set (attempts p k s)"
  shows "(\<exists>w. s = w @ s' \<and> k' = k + length w) \<and> length c' = ngroups p"
  using mt_step[OF assms[unfolded attempts_def]] by simp

lemma search_at_None: "search_at p k s = None \<Longrightarrow> attempts p k s = []"
  by (induction s arbitrary: k) (auto split: list.splits)

lemma search_at_groups:
  "search_at p k s = Some (i, j, m, gs) \<Longrightarrow> length gs = ngroups p"
proof (induction s arbitrary: k)
  case Nil
  show ?case
  proof (cases "attempts p k []")
    case Nil
    with Nil.prems show ?thesis by simp
  next
    case (Cons a as)
    obtain k' s' c' where a: "a = (k', s', c')" by (cases a)
    with Cons have "(k', s', c') \<in> set (attempts p k [])" by simp
    from attempts_step[OF this] Nil.prems Cons a show ?thesis by simp
  qed
next
  case (Cons x t)
  show ?case
  proof (cases "attempts p k (x # t)")
    case Nil
    with Cons show ?thesis by simp
  next
    case (Cons a as)
    obtain k' s' c' where a: "a = (k', s', c')" by (cases a)
    with Cons have "(k', s', c') \<in> set (attempts p k (x # t))" by simp
    from attempts_step[OF this] Cons.prems Cons a show ?thesis by simp
  qed
qed

lemma first_capture_groups:
  assumes "first_capture p s = Some cap" and "ngroups p \<noteq> 1"
  shows "\<exists>gs. cap = Groups gs \<and> length gs = ngroups p"
proof -
  from assms(1) obtain i j m gs where a: "search p s = Some (i, j, m, gs)"
    and b: "cap = (if length gs = 1 then Single (gs ! 0) else Groups gs)"
    by (auto simp: first_capture_def split: option.splits)
  from a have "length gs = ngroups p" by (simp add: search_def search_at_groups)
  with b assms(2) show ?thesis by simp
qed

lemma first_capture_single:
  assumes "first_capture p s = Some cap" and "ngroups p = 1"
  shows "\<exists>g. cap = Single g"
proof -
  from assms(1) obtain i j m gs where a: "search p s = Some (i, j, m, gs)"
    and b: "cap = (if length gs = 1 then Single (gs ! 0) else Groups gs)"
    by (auto simp: first_capture_def split: option.splits)
  from a have "length gs = ngroups p" by (simp add: search_def search_at_groups)
  with b assms(2) show ?thesis by simp
qed

lemma has_match_first_capture: "has_match p s = (first_capture p s \<noteq> None)"
  by (auto simp: has_match_def first_capture_def split: option.splits)

lemma ordered_from_mono: "ordered_from k ms \<Longrightarrow> k' \<le> k \<Longrightarrow> ordered_from k' ms"
  by (cases ms) auto

lemma finditer_at_groups:
  "r \<in> set (finditer_at p adv k s) \<Longrightarrow> length (snd (snd (snd r))) = ngroups p"
proof (induction p adv k s rule: finditer_at.induct)
  case (1 p adv k s)
  let ?fs = "filter (\<lambda>(k', s', c'). if adv then length s' < length s else True) (attempts p k s)"
  show ?case
  proof (cases ?fs)
    case Nil
    show ?thesis
    proof (cases s)
      case Nil
      with \<open>?fs = []\<close> "1.prems" show ?thesis by (subst (asm) finditer_at.simps) simp
    next
      case (Cons x t)
      with \<open>?fs = []\<close> "1.prems" have "r \<in> set (finditer_at p False (Suc k) t)"
        by (subst (asm) finditer_at.simps) simp
      from "1.IH"(1)[OF \<open>?fs = []\<close> Cons this] show ?thesis .
    qed
  next
    case (Cons a as)
    obtain k' s' c' where a: "a = (k', s', c')" by (cases a)
    have "a \<in> set ?fs" using Cons by simp
    then have "(k', s', c') \<in> set (attempts p k s)" using a by auto
    from attempts_step[OF this] have len: "length c' = ngroups p" by simp
    from "1.prems" Cons a have
      "r = (k, k', take (k' - k) s, c') \<or>
       r \<in> set (if length s' < length s then finditer_at p False k' s'
                 else if adv then [] else finditer_at p True k s)"
      by (subst (asm) finditer_at.simps) simp
    then show ?thesis
    proof
      assume "r = (k, k', take (k' - k) s, c')"
      with len show ?thesis by simp
    next
      assume r: "r \<in> set (if length s' < length s then finditer_at p False k' s'
                 else if adv then [] else finditer_at p True k s)"
      show ?thesis
      proof (cases "length s' < length s")
        case True
        with r have "r \<in> set (finditer_at p False k' s')" by simp
        from "1.IH"(2)[OF Cons a[symmetric] refl True this] show ?thesis .
      next
        case False
        with r have nadv: "\<not> adv" and "r \<in> set (finditer_at p True k s)"
          by (auto split: if_splits)
        from "1.IH"(3)[OF Cons a[symmetric] refl False nadv this(2)] show ?thesis .
      qed
    qed
  qed
qed

text \<open>
  Every match that \<open>finditer\<close> lists is a match of the pattern at its position, the
  matches are in the order of the text, and there is none exactly when \<open>search\<close>
  finds none.
\<close>

lemma finditer_at_sound:
  "(i, j, m, gs) \<in> set (finditer_at p adv k s) \<Longrightarrow>
     \<exists>u v s'. s = u @ v \<and> i = k + length u \<and> (j, s', gs) \<in> set (attempts p i v) \<and> m = take (j - i) v"
proof (induction p adv k s rule: finditer_at.induct)
  case (1 p adv k s)
  let ?fs = "filter (\<lambda>(k', s', c'). if adv then length s' < length s else True) (attempts p k s)"
  show ?case
  proof (cases ?fs)
    case Nil
    show ?thesis
    proof (cases s)
      case Nil
      with \<open>?fs = []\<close> "1.prems" show ?thesis by (subst (asm) finditer_at.simps) simp
    next
      case (Cons x t)
      with \<open>?fs = []\<close> "1.prems" have "(i, j, m, gs) \<in> set (finditer_at p False (Suc k) t)"
        by (subst (asm) finditer_at.simps) simp
      from "1.IH"(1)[OF \<open>?fs = []\<close> Cons this] obtain u v s' where
        "t = u @ v" "i = Suc k + length u" "(j, s', gs) \<in> set (attempts p i v)" "m = take (j - i) v"
        by blast
      then have "s = (x # u) @ v \<and> i = k + length (x # u) \<and> (j, s', gs) \<in> set (attempts p i v) \<and> m = take (j - i) v"
        using Cons by simp
      then show ?thesis by blast
    qed
  next
    case (Cons a as)
    obtain k' s' c' where a: "a = (k', s', c')" by (cases a)
    have "a \<in> set ?fs" using Cons by simp
    then have att: "(k', s', c') \<in> set (attempts p k s)" using a by auto
    from attempts_step[OF this] obtain w where w: "s = w @ s'" "k' = k + length w" by blast
    from "1.prems" Cons a have
      "(i, j, m, gs) = (k, k', take (k' - k) s, c') \<or>
       (i, j, m, gs) \<in> set (if length s' < length s then finditer_at p False k' s'
                 else if adv then [] else finditer_at p True k s)"
      by (subst (asm) finditer_at.simps) simp
    then show ?thesis
    proof
      assume "(i, j, m, gs) = (k, k', take (k' - k) s, c')"
      with att have "s = [] @ s \<and> i = k + length ([]::string) \<and> (j, s', gs) \<in> set (attempts p i s) \<and> m = take (j - i) s"
        by simp
      then show ?thesis by blast
    next
      assume r: "(i, j, m, gs) \<in> set (if length s' < length s then finditer_at p False k' s'
                 else if adv then [] else finditer_at p True k s)"
      show ?thesis
      proof (cases "length s' < length s")
        case True
        with r have "(i, j, m, gs) \<in> set (finditer_at p False k' s')" by simp
        from "1.IH"(2)[OF Cons a[symmetric] refl True this] obtain u v s2 where
          "s' = u @ v" "i = k' + length u" "(j, s2, gs) \<in> set (attempts p i v)" "m = take (j - i) v"
          by blast
        with w have "s = (w @ u) @ v \<and> i = k + length (w @ u) \<and> (j, s2, gs) \<in> set (attempts p i v) \<and> m = take (j - i) v"
          by simp
        then show ?thesis by blast
      next
        case False
        with r have nadv: "\<not> adv" and "(i, j, m, gs) \<in> set (finditer_at p True k s)"
          by (auto split: if_splits)
        from "1.IH"(3)[OF Cons a[symmetric] refl False nadv this(2)] show ?thesis .
      qed
    qed
  qed
qed

lemma finditer_at_ordered: "ordered_from k (finditer_at p adv k s)"
proof (induction p adv k s rule: finditer_at.induct)
  case (1 p adv k s)
  let ?fs = "filter (\<lambda>(k', s', c'). if adv then length s' < length s else True) (attempts p k s)"
  show ?case
  proof (cases ?fs)
    case Nil
    show ?thesis
    proof (cases s)
      case Nil
      with \<open>?fs = []\<close> show ?thesis by (subst finditer_at.simps) simp
    next
      case (Cons x t)
      from "1.IH"(1)[OF \<open>?fs = []\<close> Cons] have "ordered_from k (finditer_at p False (Suc k) t)"
        by (rule ordered_from_mono) simp
      with \<open>?fs = []\<close> Cons show ?thesis by (subst finditer_at.simps) simp
    qed
  next
    case (Cons a as)
    obtain k' s' c' where a: "a = (k', s', c')" by (cases a)
    have "a \<in> set ?fs" using Cons by simp
    then have att: "(k', s', c') \<in> set (attempts p k s)" using a by auto
    from attempts_step[OF this] have kk: "k \<le> k'" and eq: "length s' < length s \<or> k' = k" by auto
    have "ordered_from k' (if length s' < length s then finditer_at p False k' s'
                 else if adv then [] else finditer_at p True k s)"
    proof (cases "length s' < length s")
      case True
      from "1.IH"(2)[OF Cons a[symmetric] refl True] True show ?thesis by simp
    next
      case False
      with eq have "k' = k" by simp
      show ?thesis
      proof (cases adv)
        case True
        with False show ?thesis by simp
      next
        case nadv: False
        from "1.IH"(3)[OF Cons a[symmetric] refl False nadv] False nadv \<open>k' = k\<close> show ?thesis by simp
      qed
    qed
    with kk Cons a show ?thesis by (subst finditer_at.simps) simp
  qed
qed

lemma finditer_at_empty: "(finditer_at p False k s = []) = (search_at p k s = None)"
proof (induction s arbitrary: k)
  case Nil
  show ?case by (subst finditer_at.simps) (simp split: list.splits)
next
  case (Cons x t)
  show ?case by (subst finditer_at.simps) (simp add: Cons split: list.splits)
qed

lemma all_captures_empty: "(all_captures p s = []) = (\<not> has_match p s)"
  by (cases "search_at p 0 s")
     (auto simp: all_captures_def finditer_def finditer_at_empty has_match_def search_def)

text \<open>
  The parts of a concatenation match one after the other; a pattern that avoids a
  character never consumes it; \<^verbatim>\<open>LINESPACES\<close> consumes one or more spaces or tabs.
\<close>

lemma mt_Then_elim:
  assumes "(k', s', c') \<in> set (mt (Then p q) b (k, s, c))"
  obtains k1 s1 c1 where "(k1, s1, c1) \<in> set (mt p b (k, s, c))"
    and "(k', s', c') \<in> set (mt q (b + ngroups p) (k1, s1, c1))"
  using assms by (auto simp: mt.simps(5))

lemma mt_avoids:
  "(k', s', c') \<in> set (mt p b (k, s, c)) \<Longrightarrow> avoids x p \<Longrightarrow> s = w @ s' \<Longrightarrow> x \<notin> set w"
proof (induction p b "(k, s, c)" arbitrary: k s c k' s' c' w rule: mt.induct)
  case (1 v b k s c)
  from "1.prems"(1) have "prefix v s" "s' = drop (length v) s"
    by (auto split: if_splits simp: mt.simps(1))
  then have "s = v @ s'" by (auto simp: prefix_def)
  with "1.prems"(3) have "w = v" by simp
  with "1.prems"(2) show ?case by simp
next
  case (2 xs b k s c)
  then show ?case by (cases s) (auto split: if_splits simp: mt.simps(2) list_ex_iff)
next
  case (3 xs b k s c)
  then show ?case by (cases s) (auto split: if_splits simp: mt.simps(3) list_ex_iff)
next
  case (4 b k s c)
  then show ?case by (auto split: if_splits simp: mt.simps(4))
next
  case (5 p q b k s c)
  from "5.prems"(1) obtain k1 s1 c1 where
    a: "(k1, s1, c1) \<in> set (mt p b (k, s, c))" and
    b: "(k', s', c') \<in> set (mt q (b + ngroups p) (k1, s1, c1))"
    by (rule mt_Then_elim)
  from mt_step[OF a] obtain w1 where w1: "s = w1 @ s1" by blast
  from mt_step[OF b] obtain w2 where w2: "s1 = w2 @ s'" by blast
  from "5.prems"(2) have av: "avoids x p" "avoids x q" by simp_all
  from "5.hyps"(1)[OF a av(1) w1] have "x \<notin> set w1" .
  moreover from "5.hyps"(2)[OF a b av(2) w2] have "x \<notin> set w2" .
  moreover from w1 w2 "5.prems"(3) have "w = w1 @ w2" by simp
  ultimately show ?case by simp
next
  case (6 p q b k s c)
  from "6.prems"(1) have "(k', s', c') \<in> set (mt p b (k, s, c)) \<or> (k', s', c') \<in> set (mt q (b + ngroups p) (k, s, c))"
    by (simp add: mt.simps(6))
  with "6.hyps" "6.prems"(2,3) show ?case by auto
next
  case (7 p b k s c)
  from "7.prems"(1) have "(k', s', c') \<in> set (mt p b (k, s, c)) \<or> (k', s', c') = (k, s, c)"
    by (auto simp: mt.simps(7))
  with "7.hyps" "7.prems"(2,3) show ?case by auto
next
  case (8 p b k s c)
  from "8.prems"(1) have "(k', s', c') \<in> set (concat (map (\<lambda>(k', s', c'). if length s' < length s then mt (Rep p) b (k', s', c') else [])
                 (mt p b (k, s, c))) @ [(k, s, c)])"
    by (subst (asm) mt.simps(8))
  then consider
    (stop) "(k', s', c') = (k, s, c)" |
    (more) k1 s1 c1 where "(k1, s1, c1) \<in> set (mt p b (k, s, c))" "length s1 < length s"
      "(k', s', c') \<in> set (mt (Rep p) b (k1, s1, c1))"
    by (auto split: if_splits)
  then show ?case
  proof cases
    case stop
    with "8.prems"(3) show ?thesis by simp
  next
    case more
    from mt_step[OF more(1)] obtain w1 where w1: "s = w1 @ s1" by blast
    from mt_step[OF more(3)] obtain w2 where w2: "s1 = w2 @ s'" by blast
    from "8.prems"(2) have av: "avoids x p" "avoids x (Rep p)" by simp_all
    from "8.hyps"(1)[OF more(1) av(1) w1] have "x \<notin> set w1" .
    moreover from "8.hyps"(2)[OF more(1) refl refl more(2) more(3) av(2) w2] have "x \<notin> set w2" .
    moreover from w1 w2 "8.prems"(3) have "w = w1 @ w2" by simp
    ultimately show ?thesis by simp
  qed
next
  case (9 p b k s c)
  from "9.prems"(1) obtain k1 s1 c1 where
    a: "(k1, s1, c1) \<in> set (mt p b (k, s, c))" and
    b: "(k', s', c') \<in> set (mt (Rep p) b (k1, s1, c1))"
    by (auto simp: mt.simps(9))
  from mt_step[OF a] obtain w1 where w1: "s = w1 @ s1" by blast
  from mt_step[OF b] obtain w2 where w2: "s1 = w2 @ s'" by blast
  from "9.prems"(2) have av: "avoids x p" "avoids x (Rep p)" by simp_all
  from "9.hyps"(1)[OF a av(1) w1] have "x \<notin> set w1" .
  moreover from "9.hyps"(2)[OF a b av(2) w2] have "x \<notin> set w2" .
  moreover from w1 w2 "9.prems"(3) have "w = w1 @ w2" by simp
  ultimately show ?case by simp
next
  case (10 p b k s c)
  from "10.prems"(1) obtain c1 where a: "(k', s', c1) \<in> set (mt p (Suc b) (k, s, c))"
    by (auto simp: mt.simps(10))
  from "10.hyps"[OF a _ "10.prems"(3)] "10.prems"(2) show ?case by simp
next
  case (11 p b k s c)
  then show ?case by (auto split: if_splits simp: mt.simps(11))
qed

lemma mt_Rep_Cls:
  "(k', s', c') \<in> set (mt (Rep (Cls xs)) b (k, s, c)) \<Longrightarrow>
     \<exists>w. s = w @ s' \<and> list_all (\<lambda>x. list_ex (in_item x) xs) w \<and> c' = c"
proof (induction s arbitrary: k)
  case Nil
  then show ?case by (subst (asm) mt.simps(8)) (simp add: mt.simps(2))
next
  case (Cons x t)
  from Cons.prems have "(k', s', c') = (k, x # t, c)
      \<or> list_ex (in_item x) xs \<and> (k', s', c') \<in> set (mt (Rep (Cls xs)) b (Suc k, t, c))"
    by (subst (asm) mt.simps(8)) (auto simp: mt.simps(2) split: if_splits)
  then show ?case
  proof
    assume "(k', s', c') = (k, x # t, c)"
    then show ?thesis by simp
  next
    assume a: "list_ex (in_item x) xs \<and> (k', s', c') \<in> set (mt (Rep (Cls xs)) b (Suc k, t, c))"
    with Cons.IH obtain w where "t = w @ s'" "list_all (\<lambda>x. list_ex (in_item x) xs) w" "c' = c"
      by blast
    with a have "x # t = (x # w) @ s' \<and> list_all (\<lambda>x. list_ex (in_item x) xs) (x # w) \<and> c' = c"
      by simp
    then show ?thesis by blast
  qed
qed

lemma mt_LINESPACES:
  assumes "(k', s', c') \<in> set (mt LINESPACES b (k, s, c))"
  shows "\<exists>w. s = w @ s' \<and> w \<noteq> [] \<and> set w \<subseteq> {CHR '' '', CHR 0x09} \<and> c' = c"
proof -
  let ?xs = "[Ch CHR '' '', Ch CHR 0x09]"
  from assms obtain k1 s1 c1 where
    a: "(k1, s1, c1) \<in> set (mt (Cls ?xs) b (k, s, c))" and
    b: "(k', s', c') \<in> set (mt (Rep (Cls ?xs)) b (k1, s1, c1))"
    by (auto simp: LINESPACES_def one_or_more_def LINESPACE_def mt.simps(9))
  from a obtain x where x: "s = x # s1" "list_ex (in_item x) ?xs" "c1 = c"
    by (cases s) (auto simp: mt.simps(2) split: if_splits)
  from mt_Rep_Cls[OF b] obtain w where w: "s1 = w @ s'" "list_all (\<lambda>x. list_ex (in_item x) ?xs) w" "c' = c1"
    by blast
  from x w have "s = (x # w) @ s' \<and> x # w \<noteq> [] \<and> set (x # w) \<subseteq> {CHR '' '', CHR 0x09} \<and> c' = c"
    by (auto simp: list_all_iff)
  then show ?thesis by blast
qed

text \<open>
  Whether a pattern matches, and where, does not depend on which of its groups capture.
\<close>

lemma same_place_concat_map:
  assumes "list_all2 same_place xs ys"
    and "\<And>x y. x \<in> set xs \<Longrightarrow> same_place x y \<Longrightarrow> list_all2 same_place (f x) (g y)"
  shows "list_all2 same_place (concat (map f xs)) (concat (map g ys))"
  using assms
proof (induction xs ys rule: list_all2_induct)
  case Nil
  show ?case by simp
next
  case (Cons x xs y ys)
  have "list_all2 same_place (f x) (g y)" by (rule Cons.prems) (simp_all add: Cons.hyps)
  moreover have "list_all2 same_place (concat (map f xs)) (concat (map g ys))"
    by (rule Cons.IH) (simp add: Cons.prems)
  ultimately show ?case by (simp add: list_all2_appendI)
qed

lemma mt_uncap:
  "list_all2 same_place (mt p b (k, s, c)) (mt (uncap p) b' (k, s, c'))"
proof (induction p b "(k, s, c)" arbitrary: k s c b' c' rule: mt.induct)
  case (1 w b k s c)
  show ?case by (simp add: mt.simps(1) same_place_def)
next
  case (2 xs b k s c)
  show ?case by (cases s) (simp_all add: mt.simps(2) same_place_def)
next
  case (3 xs b k s c)
  show ?case by (cases s) (simp_all add: mt.simps(3) same_place_def)
next
  case (4 b k s c)
  show ?case by (simp add: mt.simps(4) same_place_def)
next
  case (5 p q b k s c)
  have "list_all2 same_place
      (concat (map (mt q (b + ngroups p)) (mt p b (k, s, c))))
      (concat (map (mt (uncap q) (b' + ngroups (uncap p))) (mt (uncap p) b' (k, s, c'))))"
  proof (rule same_place_concat_map[OF "5.hyps"(1)])
    fix x y assume x: "x \<in> set (mt p b (k, s, c))" and xy: "same_place x y"
    obtain k1 s1 c1 where x1: "x = (k1, s1, c1)" by (cases x)
    with xy obtain c2 where y1: "y = (k1, s1, c2)" by (cases y) (auto simp: same_place_def)
    from "5.hyps"(2)[OF x[unfolded x1], of "b' + ngroups (uncap p)" c2]
    show "list_all2 same_place (mt q (b + ngroups p) x) (mt (uncap q) (b' + ngroups (uncap p)) y)"
      unfolding x1 y1 .
  qed
  then show ?case by (simp add: mt.simps(5))
next
  case (6 p q b k s c)
  from "6.hyps"(1)[of b' c'] "6.hyps"(2)[of "b' + ngroups (uncap p)" c']
  show ?case by (simp add: mt.simps(6) list_all2_appendI)
next
  case (7 p b k s c)
  from "7.hyps"[of b' c'] show ?case
    by (simp add: mt.simps(7) list_all2_appendI same_place_def)
next
  case (8 p b k s c)
  let ?f = "\<lambda>(k', s', c'). if length s' < length s then mt (Rep p) b (k', s', c') else []"
  let ?g = "\<lambda>(k', s', c'). if length s' < length s then mt (Rep (uncap p)) b' (k', s', c') else []"
  have "list_all2 same_place (concat (map ?f (mt p b (k, s, c))))
      (concat (map ?g (mt (uncap p) b' (k, s, c'))))"
  proof (rule same_place_concat_map[OF "8.hyps"(1)])
    fix x y assume x: "x \<in> set (mt p b (k, s, c))" and xy: "same_place x y"
    obtain k1 s1 c1 where x1: "x = (k1, s1, c1)" by (cases x)
    with xy obtain c2 where y1: "y = (k1, s1, c2)" by (cases y) (auto simp: same_place_def)
    show "list_all2 same_place (?f x) (?g y)"
    proof (cases "length s1 < length s")
      case True
      from "8.hyps"(2)[OF x[unfolded x1] refl refl True, of b' c2] True
      show ?thesis unfolding x1 y1 by simp
    next
      case False
      then show ?thesis unfolding x1 y1 by simp
    qed
  qed
  then have "list_all2 same_place (concat (map ?f (mt p b (k, s, c))) @ [(k, s, c)])
      (concat (map ?g (mt (uncap p) b' (k, s, c'))) @ [(k, s, c')])"
    by (rule list_all2_appendI) (simp add: same_place_def)
  then show ?case by (subst mt.simps(8), subst uncap.simps, subst mt.simps(8))
next
  case (9 p b k s c)
  have "list_all2 same_place
      (concat (map (mt (Rep p) b) (mt p b (k, s, c))))
      (concat (map (mt (Rep (uncap p)) b') (mt (uncap p) b' (k, s, c'))))"
  proof (rule same_place_concat_map[OF "9.hyps"(1)])
    fix x y assume x: "x \<in> set (mt p b (k, s, c))" and xy: "same_place x y"
    obtain k1 s1 c1 where x1: "x = (k1, s1, c1)" by (cases x)
    with xy obtain c2 where y1: "y = (k1, s1, c2)" by (cases y) (auto simp: same_place_def)
    from "9.hyps"(2)[OF x[unfolded x1], of b' c2]
    show "list_all2 same_place (mt (Rep p) b x) (mt (Rep (uncap p)) b' y)"
      unfolding x1 y1 by simp
  qed
  then show ?case by (simp add: mt.simps(9))
next
  case (10 p b k s c)
  from "10.hyps"[of b' c']
  have "list_all2 same_place (mt p (Suc b) (k, s, c)) (mt (uncap p) b' (k, s, c'))" .
  then have "list_all2 same_place
      (map (\<lambda>(k', s', c'). (k', s', c'[b := Some (take (k' - k) s)])) (mt p (Suc b) (k, s, c)))
      (mt (uncap p) b' (k, s, c'))"
    by (simp add: list_all2_map1 same_place_def[abs_def] case_prod_unfold)
  then show ?case by (simp add: mt.simps(10))
next
  case (11 p b k s c)
  from "11.hyps"[of b' c'] have "length (mt p b (k, s, c)) = length (mt (uncap p) b' (k, s, c'))"
    by (rule list_all2_lengthD)
  then have "(mt p b (k, s, c) = []) = (mt (uncap p) b' (k, s, c') = [])"
    by (metis length_0_conv)
  then show ?case by (simp add: mt.simps(11) same_place_def)
qed

lemma attempts_uncap: "(attempts p k s = []) = (attempts (uncap p) k s = [])"
proof -
  have "length (attempts p k s) = length (attempts (uncap p) k s)"
    unfolding attempts_def by (rule list_all2_lengthD) (rule mt_uncap)
  then show ?thesis by (metis length_0_conv)
qed

lemma search_at_uncap: "(search_at p k s = None) = (search_at (uncap p) k s = None)"
proof (induction s arbitrary: k)
  case Nil
  from attempts_uncap[of p k "[]"] show ?case
    by (cases "attempts p k []"; cases "attempts (uncap p) k []") (auto split: prod.splits)
next
  case (Cons x t)
  from attempts_uncap[of p k "x # t"] Cons[of "Suc k"] show ?case
    by (cases "attempts p k (x # t)"; cases "attempts (uncap p) k (x # t)") (auto split: prod.splits)
qed

lemma has_match_uncap: "has_match p s = has_match (uncap p) s"
  using search_at_uncap[of p 0 s] by (simp add: has_match_def search_def)

text \<open>
  A match of the count pattern fills both of its groups.
\<close>

lemma search_at_sound:
  "search_at p k s = Some (i, j, m, gs) \<Longrightarrow> \<exists>v s'. (j, s', gs) \<in> set (attempts p i v)"
proof (induction s arbitrary: k)
  case Nil
  show ?case
  proof (cases "attempts p k []")
    case Nil
    with Nil.prems show ?thesis by simp
  next
    case (Cons a as)
    obtain k' s' c' where a: "a = (k', s', c')" by (cases a)
    with Cons Nil.prems have "i = k" "j = k'" "gs = c'" by simp_all
    with Cons a have "(j, s', gs) \<in> set (attempts p i [])" by simp
    then show ?thesis by blast
  qed
next
  case (Cons x t)
  show ?case
  proof (cases "attempts p k (x # t)")
    case Nil
    with Cons.prems have "search_at p (Suc k) t = Some (i, j, m, gs)" by simp
    then show ?thesis by (rule Cons.IH)
  next
    case (Cons a as)
    obtain k' s' c' where a: "a = (k', s', c')" by (cases a)
    with Cons Cons.prems have "i = k" "j = k'" "gs = c'" by simp_all
    with Cons a have "(j, s', gs) \<in> set (attempts p i (x # t))" by simp
    then show ?thesis by blast
  qed
qed

lemma mt_Rep_NCls:
  "(k', s', c') \<in> set (mt (Rep (NCls xs)) b (k, s, c)) \<Longrightarrow> c' = c"
proof (induction s arbitrary: k)
  case Nil
  then show ?case by (subst (asm) mt.simps(8)) (simp add: mt.simps(3))
next
  case (Cons x t)
  from Cons.prems have "(k', s', c') = (k, x # t, c)
      \<or> (k', s', c') \<in> set (mt (Rep (NCls xs)) b (Suc k, t, c))"
    by (subst (asm) mt.simps(8)) (auto simp: mt.simps(3) split: if_splits)
  with Cons.IH show ?case by auto
qed

lemma count_pattern_groups:
  assumes "first_capture count_pattern s = Some cap"
  shows "\<exists>cnt rgt. cap = Groups [Some cnt, Some rgt]"
proof -
  from assms obtain i j m gs where sr: "search count_pattern s = Some (i, j, m, gs)"
    and cap: "cap = (if length gs = 1 then Single (gs ! 0) else Groups gs)"
    by (auto simp: first_capture_def split: option.splits)
  from search_at_sound[OF sr[unfolded search_def]] obtain v s' where
    "(j, s', gs) \<in> set (attempts count_pattern i v)" by blast
  then have all: "(j, s', gs) \<in> set (mt (Then Bos (Then (Cap (Opt DIGIT)) (Cap (Rep1 NONSPACE)))) 0
                                    (i, v, [None, None]))"
    by (simp add: attempts_def count_pattern_def STRING_START_def capturing_def maybe_def
          one_or_more_def DIGIT_def NONSPACE_def numeral_2_eq_2)
  from all obtain k1 s1 c1 where
    1: "(k1, s1, c1) \<in> set (mt Bos 0 (i, v, [None, None]))" and
    r1: "(j, s', gs) \<in> set (mt (Then (Cap (Opt DIGIT)) (Cap (Rep1 NONSPACE))) (0 + ngroups Bos) (k1, s1, c1))"
    by (rule mt_Then_elim)
  from r1 obtain k2 s2 c2 where
    2: "(k2, s2, c2) \<in> set (mt (Cap (Opt DIGIT)) (0 + ngroups Bos) (k1, s1, c1))" and
    3: "(j, s', gs) \<in> set (mt (Cap (Rep1 NONSPACE)) (0 + ngroups Bos + ngroups (Cap (Opt DIGIT))) (k2, s2, c2))"
    by (rule mt_Then_elim)
  from mt_step[OF 1] have l1: "length c1 = 2" by simp
  from 2 obtain c2' where
    o2: "(k2, s2, c2') \<in> set (mt (Opt DIGIT) (Suc 0) (k1, s1, c1))" and
    c2: "c2 = c2'[0 := Some (take (k2 - k1) s1)]"
    by (auto simp: mt.simps(10))
  from mt_step[OF o2] l1 have l2: "length c2' = 2" by simp
  have ng: "ngroups (Cap (Opt DIGIT)) = 1" by (simp add: DIGIT_def)
  from 3 obtain c3 where
    o3: "(j, s', c3) \<in> set (mt (Rep1 NONSPACE) (Suc 1) (k2, s2, c2))" and
    gs: "gs = c3[1 := Some (take (j - k2) s2)]"
    by (auto simp: mt.simps(10) DIGIT_def)
  from o3 obtain k4 s4 c4 where
    4: "(k4, s4, c4) \<in> set (mt (NCls [Whitespace]) (Suc 1) (k2, s2, c2))" and
    5: "(j, s', c3) \<in> set (mt (Rep (NCls [Whitespace])) (Suc 1) (k4, s4, c4))"
    by (auto simp: NONSPACE_def mt.simps(9))
  from 4 have "c4 = c2" by (cases s2) (auto simp: mt.simps(3) split: if_splits)
  with mt_Rep_NCls[OF 5] have "c3 = c2" by simp
  with gs c2 l2 obtain a b where "gs = [Some a, Some b]"
    by (cases c2'; cases "tl c2'") auto
  with cap show ?thesis by simp
qed

section \<open>Properties of dictionaries and loops\<close>

lemma map_of_dict_set: "map_of (dict_set d k v) k' = (if k' = k then Some v else map_of d k')"
  by (induction d) auto

lemma keys_dict_set: "set (map fst (dict_set d k v)) = insert k (set (map fst d))"
proof (induction d)
  case Nil
  show ?case by simp
next
  case (Cons a d)
  obtain k' v' where a: "a = (k', v')" by (cases a)
  show ?case
  proof (cases "k' = k")
    case True
    with a show ?thesis by simp
  next
    case False
    with a Cons show ?thesis by (simp add: insert_commute)
  qed
qed

lemma distinct_dict_set: "distinct (map fst d) \<Longrightarrow> distinct (map fst (dict_set d k v))"
proof (induction d)
  case Nil
  show ?case by simp
next
  case (Cons a d)
  obtain k' v' where a: "a = (k', v')" by (cases a)
  show ?case
  proof (cases "k' = k")
    case True
    with a Cons.prems show ?thesis by simp
  next
    case False
    from Cons.prems a have "k' \<notin> set (map fst d)" "distinct (map fst d)" by simp_all
    with False Cons.IH keys_dict_set[of d k v] a show ?thesis by simp
  qed
qed

lemma sequence_total: "sequence (map (\<lambda>t. Inr (f t)) ts) = Inr (map f ts)"
  by (induction ts) auto

text \<open>The step of a loop that collects values under their keys.\<close>

lemma collect_lookup:
  fixes unit :: "'v \<Rightarrow> 'w" and join :: "'w \<Rightarrow> 'v \<Rightarrow> 'w"
  defines "step \<equiv> \<lambda>d (k, v). case map_of d k of None \<Rightarrow> dict_set d k (unit v)
                                  | Some old \<Rightarrow> dict_set d k (join old v)"
  shows "map_of (foldl step d0 kvs) k =
     (case map snd (filter (\<lambda>r. fst r = k) kvs) of
        [] \<Rightarrow> map_of d0 k
      | v # vs \<Rightarrow> Some (foldl join (case map_of d0 k of None \<Rightarrow> unit v | Some old \<Rightarrow> join old v) vs))"
proof (induction kvs arbitrary: d0)
  case Nil
  show ?case by simp
next
  case (Cons kv kvs)
  obtain k1 v1 where kv: "kv = (k1, v1)" by (cases kv)
  have step: "map_of (step d0 (k1, v1)) k =
      (if k = k1 then Some (case map_of d0 k of None \<Rightarrow> unit v1 | Some old \<Rightarrow> join old v1)
       else map_of d0 k)"
    by (auto simp: step_def map_of_dict_set split: option.splits)
  show ?case
  proof (cases "k1 = k")
    case True
    with step kv show ?thesis
      by (simp add: Cons.IH split: list.splits)
  next
    case False
    with step kv show ?thesis
      by (simp add: Cons.IH split: list.splits)
  qed
qed

lemma collect_distinct:
  fixes unit :: "'v \<Rightarrow> 'w" and join :: "'w \<Rightarrow> 'v \<Rightarrow> 'w"
  defines "step \<equiv> \<lambda>d (k, v). case map_of d k of None \<Rightarrow> dict_set d k (unit v)
                                  | Some old \<Rightarrow> dict_set d k (join old v)"
  shows "distinct (map fst d0) \<Longrightarrow> distinct (map fst (foldl step d0 kvs))"
proof (induction kvs arbitrary: d0)
  case Nil
  then show ?case by simp
next
  case (Cons kv kvs)
  obtain k1 v1 where kv: "kv = (k1, v1)" by (cases kv)
  from Cons.prems have "distinct (map fst (step d0 (k1, v1)))"
    by (auto simp: step_def distinct_dict_set split: option.splits)
  from Cons.IH[OF this] kv show ?case by simp
qed

text \<open>
  The items of \<open>all_captures\<close> have the shape that the number of groups of the pattern
  fixes.
\<close>

lemma all_captures_shape:
  assumes "item \<in> set (all_captures p s)"
  shows "(ngroups p = 0 \<or> ngroups p = 1) \<and> (\<exists>t. item = Text t)
       \<or> 2 \<le> ngroups p \<and> (\<exists>ts. item = Texts ts \<and> length ts = ngroups p)"
proof -
  from assms obtain r where r: "r \<in> set (finditer p s)" "item = found_of r"
    by (auto simp: all_captures_def)
  obtain i j m gs where rr: "r = (i, j, m, gs)" by (cases r) auto
  from finditer_at_groups[OF r(1)[unfolded finditer_def]] rr have len: "length gs = ngroups p" by simp
  show ?thesis
  proof (cases gs)
    case Nil
    with r rr len show ?thesis by (simp add: found_of_def)
  next
    case (Cons g gs')
    show ?thesis
    proof (cases gs')
      case Nil
      with Cons r rr len show ?thesis by (simp add: found_of_def)
    next
      case (Cons g' gs'')
      with \<open>gs = g # gs'\<close> r rr len show ?thesis by (auto simp: found_of_def)
    qed
  qed
qed

section \<open>The species extractor on an entry that does not match\<close>

lemma uncap_first_line:
  "uncap (first_line_pattern (capturing SPECIES_NAMES_PATTERN) SPECIES_NAMES_PATTERN COEFF_PATTERN) =
     first_line_pattern SPECIES_NAMES_PATTERN SPECIES_NAMES_PATTERN COEFF_PATTERN"
  "uncap (first_line_pattern SPECIES_NAMES_PATTERN (capturing SPECIES_NAMES_PATTERN) COEFF_PATTERN) =
     first_line_pattern SPECIES_NAMES_PATTERN SPECIES_NAMES_PATTERN COEFF_PATTERN"
  "uncap (first_line_pattern SPECIES_NAMES_PATTERN SPECIES_NAMES_PATTERN (capturing COEFF_PATTERN)) =
     first_line_pattern SPECIES_NAMES_PATTERN SPECIES_NAMES_PATTERN COEFF_PATTERN"
  by code_simp+

text \<open>
  Claim C2. The claim is that \<open>reactant_names\<close> and \<open>product_names\<close> yield no names when
  the first-line pattern does not match the entry. In the code \<^verbatim>\<open>first_capture\<close> then
  returns \<^verbatim>\<open>None\<close>, which goes unchecked into \<^verbatim>\<open>_split_reagent_string\<close>, and the first
  \<^verbatim>\<open>re.sub\<close> there raises: for every entry in which the pattern has no match, both
  functions raise \<open>TypeError\<close>.
\<close>

theorem names_raise_without_match:
  assumes "\<not> has_match (first_line_pattern SPECIES_NAMES_PATTERN SPECIES_NAMES_PATTERN COEFF_PATTERN) s"
  shows "reactant_names s = Inl TypeError \<and> product_names s = Inl TypeError"
proof -
  from assms have
    "\<not> has_match (first_line_pattern (capturing SPECIES_NAMES_PATTERN) SPECIES_NAMES_PATTERN COEFF_PATTERN) s"
    "\<not> has_match (first_line_pattern SPECIES_NAMES_PATTERN (capturing SPECIES_NAMES_PATTERN) COEFF_PATTERN) s"
    by (subst has_match_uncap, simp add: uncap_first_line)+
  then show ?thesis
    by (simp add: reactant_names_def product_names_def has_match_first_capture split_reagent_string_def)
qed

text \<open>
  The entry \<^verbatim>\<open>H+O2\<close> has no arrow and no coefficients: the pattern has no match in it,
  and both functions raise.
\<close>

theorem names_raise_without_match_witness:
  "\<not> has_match (first_line_pattern SPECIES_NAMES_PATTERN SPECIES_NAMES_PATTERN COEFF_PATTERN) ''H+O2''
   \<and> reactant_names ''H+O2'' = Inl TypeError
   \<and> product_names ''H+O2'' = Inl TypeError"
proof -
  have a: "\<not> has_match (first_line_pattern SPECIES_NAMES_PATTERN SPECIES_NAMES_PATTERN COEFF_PATTERN) ''H+O2''"
    by code_simp
  from names_raise_without_match[OF a] a show ?thesis by blast
qed

section \<open>Chebyshev parameters\<close>

lemma and_then_not_None:
  "(\<And>x. f x \<noteq> Inr None) \<Longrightarrow> and_then m f \<noteq> Inr None"
  by (cases m) auto

text \<open>
  Claim C7. \<open>chebyshev_parameters\<close> returns \<^verbatim>\<open>None\<close> exactly when one of the four patterns
  (the \<^verbatim>\<open>TCHEB\<close> block, the \<^verbatim>\<open>PCHEB\<close> block, the \<^verbatim>\<open>CHEB\<close> dimension block, a
  \<^verbatim>\<open>CHEB\<close> coefficient row) has no match in the entry. So a result other than \<^verbatim>\<open>None\<close>
  needs all four, and the record it then returns has all four fields.
\<close>

theorem chebyshev_all_or_nothing:
  "(chebyshev_parameters flt s = Inr None) =
     (\<not> (has_match temp_pattern s \<and> has_match pressure_pattern s
          \<and> has_match alpha_dimension_pattern s \<and> has_match alpha_elements_pattern s))"
proof (cases "has_match temp_pattern s \<and> has_match pressure_pattern s
          \<and> has_match alpha_dimension_pattern s \<and> has_match alpha_elements_pattern s")
  case True
  then obtain temps pressures dims row rows where
    a: "first_capture temp_pattern s = Some temps"
       "first_capture pressure_pattern s = Some pressures"
       "first_capture alpha_dimension_pattern s = Some dims"
       "all_captures alpha_elements_pattern s = row # rows"
    using all_captures_empty[of alpha_elements_pattern s]
    by (auto simp: has_match_first_capture neq_Nil_conv)
  have "chebyshev_parameters flt s \<noteq> Inr None"
    unfolding chebyshev_parameters_def Let_def a
    by (simp del: and_then.simps) (intro and_then_not_None, simp)
  with True show ?thesis by simp
next
  case False
  then have "first_capture temp_pattern s = None \<or> first_capture pressure_pattern s = None
     \<or> first_capture alpha_dimension_pattern s = None \<or> all_captures alpha_elements_pattern s = []"
    using all_captures_empty[of alpha_elements_pattern s]
    by (auto simp: has_match_first_capture)
  then have "chebyshev_parameters flt s = Inr None"
    unfolding chebyshev_parameters_def Let_def
    by (auto split: option.splits list.splits)
  with False show ?thesis by simp
qed

text \<open>
  An entry with a \<^verbatim>\<open>TCHEB\<close> block, a dimension block and a coefficient row, and no
  \<^verbatim>\<open>PCHEB\<close> block: the result is \<^verbatim>\<open>None\<close>.
\<close>

theorem chebyshev_all_or_nothing_witness:
  "has_match temp_pattern ''TCHEB / 300.0 2000.0 /\<newline>CHEB / 2 2 /\<newline>CHEB /  1.0E0  2.0E0 /''
   \<and> \<not> has_match pressure_pattern ''TCHEB / 300.0 2000.0 /\<newline>CHEB / 2 2 /\<newline>CHEB /  1.0E0  2.0E0 /''
   \<and> chebyshev_parameters (Inr :: string \<Rightarrow> error + string)
        ''TCHEB / 300.0 2000.0 /\<newline>CHEB / 2 2 /\<newline>CHEB /  1.0E0  2.0E0 /'' = Inr None"
proof -
  have a: "has_match temp_pattern ''TCHEB / 300.0 2000.0 /\<newline>CHEB / 2 2 /\<newline>CHEB /  1.0E0  2.0E0 /''"
    by code_simp
  have b: "\<not> has_match pressure_pattern ''TCHEB / 300.0 2000.0 /\<newline>CHEB / 2 2 /\<newline>CHEB /  1.0E0  2.0E0 /''"
    by code_simp
  from a b show ?thesis
    using chebyshev_all_or_nothing
      [of "Inr :: string \<Rightarrow> error + string" "''TCHEB / 300.0 2000.0 /\<newline>CHEB / 2 2 /\<newline>CHEB /  1.0E0  2.0E0 /''"]
    by blast
qed

section \<open>Troe parameters\<close>

text \<open>
  Both patterns ask for whitespace (\<^verbatim>\<open>SPACES\<close>, one or more) between the opening slash
  and the first number. The first pattern also asks for whitespace after the third
  number, before its optional fourth group.
\<close>

lemma troe3_caps:
  "first_capture troe_pattern1 ''TROE/ 0.5 100 1000/'' = None"
  "first_capture troe_pattern2 ''TROE/ 0.5 100 1000/'' = Some (Groups [Some ''0.5'', Some ''100'', Some ''1000''])"
  by code_simp+

lemma troe4_caps:
  "first_capture troe_pattern1 ''TROE/ 0.5 100 1000 2000/'' =
     Some (Groups [Some ''0.5'', Some ''100'', Some ''1000'', Some ''2000''])"
  by code_simp

lemma troe3sp_caps:
  "first_capture troe_pattern1 ''TROE/ 0.5 100 1000 /'' = Some (Groups [Some ''0.5'', Some ''100'', Some ''1000'', None])"
  "first_capture troe_pattern2 ''TROE/ 0.5 100 1000 /'' = Some (Groups [Some ''0.5'', Some ''100'', Some ''1000''])"
  by code_simp+

lemma sequence_map_py_float_Some:
  "sequence (map (py_float flt) (map Some ts)) = sequence (map flt ts)"
  by (simp add: comp_def)

lemma sequence_snoc_error:
  "sequence (rs @ [Inl e]) = and_then (sequence rs) (\<lambda>ps. Inl e)"
proof (induction rs)
  case Nil
  show ?case by simp
next
  case (Cons r rs)
  then show ?case by (cases r; cases "sequence rs") auto
qed

lemma sequence_length: "sequence rs = Inr xs \<Longrightarrow> length xs = length rs"
proof (induction rs arbitrary: xs)
  case Nil
  then show ?case by simp
next
  case (Cons r rs)
  then show ?case by (cases r; cases "sequence rs") auto
qed

lemma floats_Groups_length:
  "floats flt (Groups gs) = Inr ps \<Longrightarrow> length ps = length gs"
  by (auto simp: floats_def dest: sequence_length)

lemma troe_pattern_groups: "ngroups troe_pattern1 = 4" "ngroups troe_pattern2 = 3"
  by code_simp+

text \<open>
  Claim C5, as amended. For every entry, \<open>troe_parameters\<close> takes the result of the
  4-parameter pattern when it matches; when it does not and the 3-parameter pattern
  matches, it takes the three numbers and appends \<^verbatim>\<open>None\<close>; when neither matches the
  result is \<^verbatim>\<open>None\<close>. A returned list has four entries, the first three are numbers,
  and the fourth is \<^verbatim>\<open>None\<close> exactly when the 4-parameter pattern did not match. With
  whitespace after the opening slash, \<^verbatim>\<open>TROE/ 0.5 100 1000/\<close> yields
  \<^verbatim>\<open>(0.5, 100.0, 1000.0, None)\<close> and \<^verbatim>\<open>TROE/ 0.5 100 1000 2000/\<close> yields
  \<^verbatim>\<open>(0.5, 100.0, 1000.0, 2000.0)\<close>, where each number is the conversion \<open>flt\<close> of its
  text.
\<close>

theorem troe_parameters_forms:
  "troe_parameters flt ''TROE/ 0.5 100 1000/'' =
     and_then (sequence (map flt [''0.5'', ''100'', ''1000'']))
       (\<lambda>params. Inr (Some (map Some params @ [None])))
   \<and> troe_parameters flt ''TROE/ 0.5 100 1000 2000/'' =
     and_then (sequence (map flt [''0.5'', ''100'', ''1000'', ''2000'']))
       (\<lambda>params. Inr (Some (map Some params)))
   \<and> (\<forall>c1. first_capture troe_pattern1 s = Some c1 \<longrightarrow>
         troe_parameters flt s = and_then (floats flt c1) (\<lambda>params. Inr (Some (map Some params))))
   \<and> (\<forall>c2. first_capture troe_pattern1 s = None \<and> first_capture troe_pattern2 s = Some c2 \<longrightarrow>
         troe_parameters flt s = and_then (floats flt c2) (\<lambda>params. Inr (Some (map Some params @ [None]))))
   \<and> (\<not> has_match troe_pattern1 s \<and> \<not> has_match troe_pattern2 s \<longrightarrow> troe_parameters flt s = Inr None)
   \<and> (\<forall>ps. troe_parameters flt s = Inr (Some ps) \<longrightarrow>
         length ps = 4 \<and> ps ! 0 \<noteq> None \<and> ps ! 1 \<noteq> None \<and> ps ! 2 \<noteq> None
         \<and> (ps ! 3 = None) = (\<not> has_match troe_pattern1 s))"
proof (intro conjI allI impI)
  fix ps assume r: "troe_parameters flt s = Inr (Some ps)"
  have "length ps = 4 \<and> ps ! 0 \<noteq> None \<and> ps ! 1 \<noteq> None \<and> ps ! 2 \<noteq> None
         \<and> (ps ! 3 = None) = (\<not> has_match troe_pattern1 s)"
  proof (cases "first_capture troe_pattern1 s")
    case (Some c1)
    from first_capture_groups[OF Some] obtain gs where g: "c1 = Groups gs" "length gs = 4"
      by (auto simp: troe_pattern_groups)
    from r Some obtain params where p: "floats flt c1 = Inr params" "ps = map Some params"
      by (cases "floats flt c1") (auto simp: troe_parameters_def)
    from floats_Groups_length[OF p(1)[unfolded g(1)]] g(2) have "length params = 4" by simp
    with p(2) Some show ?thesis by (simp add: has_match_first_capture)
  next
    case None
    with r obtain c2 where c2: "first_capture troe_pattern2 s = Some c2"
      by (cases "first_capture troe_pattern2 s") (auto simp: troe_parameters_def)
    from first_capture_groups[OF c2] obtain gs where g: "c2 = Groups gs" "length gs = 3"
      by (auto simp: troe_pattern_groups)
    from r None c2 obtain params where p: "floats flt c2 = Inr params" "ps = map Some params @ [None]"
      by (cases "floats flt c2") (auto simp: troe_parameters_def)
    from floats_Groups_length[OF p(1)[unfolded g(1)]] g(2) have "length params = 3" by simp
    with p(2) None show ?thesis by (simp add: has_match_first_capture nth_append)
  qed
  then show "length ps = 4" "ps ! 0 \<noteq> None" "ps ! 1 \<noteq> None" "ps ! 2 \<noteq> None"
    "(ps ! 3 = None) = (\<not> has_match troe_pattern1 s)"
    by blast+
next
  show "troe_parameters flt ''TROE/ 0.5 100 1000/'' =
     and_then (sequence (map flt [''0.5'', ''100'', ''1000'']))
       (\<lambda>params. Inr (Some (map Some params @ [None])))"
    unfolding troe_parameters_def Let_def troe3_caps floats_def
    by (simp del: sequence.simps)
next
  show "troe_parameters flt ''TROE/ 0.5 100 1000 2000/'' =
     and_then (sequence (map flt [''0.5'', ''100'', ''1000'', ''2000'']))
       (\<lambda>params. Inr (Some (map Some params)))"
    unfolding troe_parameters_def Let_def troe4_caps floats_def
    by (simp del: sequence.simps)
next
  fix c1 assume "first_capture troe_pattern1 s = Some c1"
  then show "troe_parameters flt s = and_then (floats flt c1) (\<lambda>params. Inr (Some (map Some params)))"
    by (simp add: troe_parameters_def)
next
  fix c2 assume "first_capture troe_pattern1 s = None \<and> first_capture troe_pattern2 s = Some c2"
  then show "troe_parameters flt s = and_then (floats flt c2) (\<lambda>params. Inr (Some (map Some params @ [None])))"
    by (simp add: troe_parameters_def)
next
  assume "\<not> has_match troe_pattern1 s \<and> \<not> has_match troe_pattern2 s"
  then show "troe_parameters flt s = Inr None"
    by (simp add: troe_parameters_def has_match_first_capture)
qed

text \<open>
  The examples and the three branches, with the conversion that keeps the text of a
  numeral.
\<close>

theorem troe_parameters_forms_witness:
  "first_capture troe_pattern1 ''TROE/ 0.5 100 1000/'' = None
   \<and> first_capture troe_pattern2 ''TROE/ 0.5 100 1000/'' = Some (Groups [Some ''0.5'', Some ''100'', Some ''1000''])
   \<and> troe_parameters (Inr :: string \<Rightarrow> error + string) ''TROE/ 0.5 100 1000/'' =
       Inr (Some [Some ''0.5'', Some ''100'', Some ''1000'', None])
   \<and> first_capture troe_pattern1 ''TROE/ 0.5 100 1000 2000/'' =
       Some (Groups [Some ''0.5'', Some ''100'', Some ''1000'', Some ''2000''])
   \<and> troe_parameters (Inr :: string \<Rightarrow> error + string) ''TROE/ 0.5 100 1000 2000/'' =
       Inr (Some [Some ''0.5'', Some ''100'', Some ''1000'', Some ''2000''])
   \<and> \<not> has_match troe_pattern1 ''LOW / 1.0 2.0 3.0 /''
   \<and> \<not> has_match troe_pattern2 ''LOW / 1.0 2.0 3.0 /''
   \<and> troe_parameters (Inr :: string \<Rightarrow> error + string) ''LOW / 1.0 2.0 3.0 /'' = Inr None"
proof -
  note t = troe_parameters_forms[of "Inr :: string \<Rightarrow> error + string"]
  have a: "first_capture troe_pattern1 ''TROE/ 0.5 100 1000/'' = None"
    and b: "first_capture troe_pattern2 ''TROE/ 0.5 100 1000/'' = Some (Groups [Some ''0.5'', Some ''100'', Some ''1000''])"
    and c: "first_capture troe_pattern1 ''TROE/ 0.5 100 1000 2000/'' =
       Some (Groups [Some ''0.5'', Some ''100'', Some ''1000'', Some ''2000''])"
    and d: "\<not> has_match troe_pattern1 ''LOW / 1.0 2.0 3.0 /''"
    and e: "\<not> has_match troe_pattern2 ''LOW / 1.0 2.0 3.0 /''"
    by code_simp+
  from t[of "''TROE/ 0.5 100 1000/''"] a b
  have 1: "troe_parameters (Inr :: string \<Rightarrow> error + string) ''TROE/ 0.5 100 1000/'' =
       Inr (Some [Some ''0.5'', Some ''100'', Some ''1000'', None])"
    by (simp add: floats_def)
  from t[of "''TROE/ 0.5 100 1000 2000/''"] c
  have 2: "troe_parameters (Inr :: string \<Rightarrow> error + string) ''TROE/ 0.5 100 1000 2000/'' =
       Inr (Some [Some ''0.5'', Some ''100'', Some ''1000'', Some ''2000''])"
    by (simp add: floats_def)
  from t[of "''LOW / 1.0 2.0 3.0 /''"] d e
  have 3: "troe_parameters (Inr :: string \<Rightarrow> error + string) ''LOW / 1.0 2.0 3.0 /'' = Inr None"
    by simp
  from a b c d e 1 2 3 show ?thesis by blast
qed

text \<open>
  The block \<^verbatim>\<open>TROE/0.5 100 1000/\<close>, as the claim writes it, has no whitespace after the
  opening slash: neither pattern matches, and the result is \<^verbatim>\<open>None\<close>, not
  \<^verbatim>\<open>(0.5, 100.0, 1000.0, None)\<close>.
\<close>

theorem troe_unspaced_counterexample:
  "troe_parameters (Inr :: string \<Rightarrow> error + string) ''TROE/0.5 100 1000/'' = Inr None"
  by code_simp

text \<open>
  Claim C10. There is an entry with a three-number \<^verbatim>\<open>TROE\<close> block and whitespace
  between the last number and the closing slash, \<^verbatim>\<open>TROE/ 0.5 100 1000 /\<close>, on which the
  4-parameter pattern matches with its fourth group unfilled. \<open>troe_parameters\<close> takes
  that branch and converts the missing group: whenever the three numbers convert, the
  call raises \<open>TypeError\<close> and never returns, although the 3-parameter pattern matches
  the entry with the three numbers.
\<close>

theorem troe_unfilled_fourth_group:
  "first_capture troe_pattern1 ''TROE/ 0.5 100 1000 /'' =
     Some (Groups [Some ''0.5'', Some ''100'', Some ''1000'', None])
   \<and> first_capture troe_pattern2 ''TROE/ 0.5 100 1000 /'' =
     Some (Groups [Some ''0.5'', Some ''100'', Some ''1000''])
   \<and> troe_parameters flt ''TROE/ 0.5 100 1000 /'' =
     and_then (sequence (map flt [''0.5'', ''100'', ''1000''])) (\<lambda>params. Inl TypeError)"
proof -
  have "sequence (map (py_float flt) [Some ''0.5'', Some ''100'', Some ''1000'', None]) =
      and_then (sequence (map flt [''0.5'', ''100'', ''1000''])) (\<lambda>params. Inl TypeError)"
    using sequence_snoc_error[of "map flt [''0.5'', ''100'', ''1000'']" TypeError]
    by (simp del: sequence.simps and_then.simps)
  moreover have "and_then (and_then m (\<lambda>ps. Inl TypeError)) g = and_then m (\<lambda>ps. Inl TypeError)" for m :: "error + 'a list" and g :: "'a list \<Rightarrow> error + 'a option list option"
    by (cases m) auto
  ultimately show ?thesis
    unfolding troe_parameters_def Let_def troe3sp_caps floats_def
    by (simp del: sequence.simps)
qed

section \<open>PLOG parameters\<close>

lemma plog_groups: "ngroups plog_pattern = 4"
  by code_simp

lemma plog_item_length:
  "item \<in> set (all_captures plog_pattern s) \<Longrightarrow> length (iter_found item) = 4"
  using all_captures_shape[of item plog_pattern s] by (auto simp: plog_groups)

lemma plog_loop_total:
  assumes "\<forall>item \<in> set items. iter_found item \<noteq> []"
  shows "plog_loop (\<lambda>t. Inr (f t)) items d =
     Inr (foldl (\<lambda>d (k, v). case map_of d k of None \<Rightarrow> dict_set d k [v]
                                | Some old \<Rightarrow> dict_set d k (old @ [v]))
            d (map (\<lambda>item. (f (hd (iter_found item)), map f (tl (iter_found item)))) items))"
  using assms
proof (induction items arbitrary: d)
  case Nil
  show ?case by simp
next
  case (Cons item items)
  from Cons.prems obtain p0 ps where i: "iter_found item = p0 # ps"
    by (cases "iter_found item") auto
  from Cons.prems have rest: "\<forall>item \<in> set items. iter_found item \<noteq> []" by simp
  show ?case by (simp add: i sequence_total Cons.IH[OF rest])
qed

lemma foldl_snoc_list: "foldl (\<lambda>old v. old @ [v]) xs vs = xs @ vs"
  by (induction vs arbitrary: xs) auto

text \<open>
  Claim C6. For every entry and every conversion \<open>f\<close> of numeral texts to floats,
  \<open>plog_parameters\<close> returns; the result is \<^verbatim>\<open>None\<close> exactly when no \<^verbatim>\<open>PLOG\<close> block
  matches; otherwise it is a dictionary with one entry for each pressure, whose value
  lists the triples \<^verbatim>\<open>[A, b, Ea]\<close> of all blocks with that pressure, in the order of
  the entry. Every block has four texts: the pressure and the triple.
\<close>

theorem plog_parameters_groups_by_pressure:
  "(\<forall>item \<in> set (all_captures plog_pattern s). length (iter_found item) = 4)
   \<and> (\<exists>r. plog_parameters (\<lambda>t. Inr (f t)) s = Inr r
        \<and> (r = None) = (\<not> has_match plog_pattern s)
        \<and> (\<forall>d. r = Some d \<longrightarrow>
              distinct (map fst d)
              \<and> (\<forall>k. map_of d k =
                  (case filter (\<lambda>row. fst row = k)
                          (map (\<lambda>item. (f (hd (iter_found item)), map f (tl (iter_found item))))
                               (all_captures plog_pattern s)) of
                     [] \<Rightarrow> None
                   | rows \<Rightarrow> Some (map snd rows)))))"
proof (intro conjI ballI)
  fix item assume "item \<in> set (all_captures plog_pattern s)"
  then show "length (iter_found item) = 4" by (rule plog_item_length)
next
  let ?items = "all_captures plog_pattern s"
  let ?rows = "map (\<lambda>item. (f (hd (iter_found item)), map f (tl (iter_found item)))) ?items"
  let ?step = "\<lambda>d (k, v). case map_of d k of None \<Rightarrow> dict_set d k [v]
                                | Some old \<Rightarrow> dict_set d k (old @ [v])"
  let ?d = "foldl ?step [] ?rows"
  have ne: "\<forall>item \<in> set ?items. iter_found item \<noteq> []"
    using plog_item_length[of _ s] by fastforce
  have loop: "plog_loop (\<lambda>t. Inr (f t)) ?items [] = Inr ?d"
    by (rule plog_loop_total[OF ne])
  have res: "plog_parameters (\<lambda>t. Inr (f t)) s = Inr (if ?items = [] then None else Some ?d)"
    by (simp add: plog_parameters_def Let_def loop)
  have dist: "distinct (map fst ?d)"
    by (rule collect_distinct[where unit = "\<lambda>v. [v]" and join = "\<lambda>old v. old @ [v]"]) simp
  have look: "map_of ?d k =
      (case filter (\<lambda>row. fst row = k) ?rows of [] \<Rightarrow> None | rows \<Rightarrow> Some (map snd rows))" for k
    using collect_lookup[where unit = "\<lambda>v. [v]" and join = "\<lambda>old v. old @ [v]" and ?d0.0 = "[]" and kvs = ?rows and k = k]
    by (cases "filter (\<lambda>row. fst row = k) ?rows") (simp_all add: foldl_snoc_list)
  show "\<exists>r. plog_parameters (\<lambda>t. Inr (f t)) s = Inr r
        \<and> (r = None) = (\<not> has_match plog_pattern s)
        \<and> (\<forall>d. r = Some d \<longrightarrow>
              distinct (map fst d)
              \<and> (\<forall>k. map_of d k =
                  (case filter (\<lambda>row. fst row = k) ?rows of
                     [] \<Rightarrow> None
                   | rows \<Rightarrow> Some (map snd rows))))"
    using res dist look all_captures_empty[of plog_pattern s]
    by (intro exI[of _ "if ?items = [] then None else Some ?d"]) auto
qed

text \<open>
  Two blocks at pressure \<^verbatim>\<open>1.0\<close> around a block at \<^verbatim>\<open>10.0\<close>: the key \<^verbatim>\<open>1.0\<close> holds
  both triples, in the order of the entry.
\<close>

theorem plog_parameters_groups_by_pressure_witness:
  "has_match plog_pattern ''PLOG/1.0 1 2 3/\<newline>PLOG / 10.0 7 8 9 /\<newline>PLOG/1.0 4 5 6/''
   \<and> plog_parameters (\<lambda>t. Inr t) ''PLOG/1.0 1 2 3/\<newline>PLOG / 10.0 7 8 9 /\<newline>PLOG/1.0 4 5 6/'' =
       Inr (Some [(''1.0'', [[''1'', ''2'', ''3''], [''4'', ''5'', ''6'']]), (''10.0'', [[''7'', ''8'', ''9'']])])
   \<and> distinct (map fst [(''1.0'', [[''1'', ''2'', ''3''], [''4'', ''5'', ''6'']]), (''10.0'', [[''7'', ''8'', ''9'']])])"
proof -
  let ?s = "''PLOG/1.0 1 2 3/\<newline>PLOG / 10.0 7 8 9 /\<newline>PLOG/1.0 4 5 6/''"
  let ?d = "[(''1.0'', [[''1'', ''2'', ''3''], [''4'', ''5'', ''6'']]), (''10.0'', [[''7'', ''8'', ''9'']])]"
  have m: "has_match plog_pattern ?s" by code_simp
  have e: "plog_parameters (\<lambda>t. Inr t) ?s = Inr (Some ?d)" by code_simp
  from plog_parameters_groups_by_pressure[of ?s "\<lambda>t. t"]
  obtain r where r: "plog_parameters (\<lambda>t. Inr t) ?s = Inr r"
    and d: "\<forall>d. r = Some d \<longrightarrow> distinct (map fst d)"
    by blast
  from r e have "r = Some ?d" by simp
  with d have "distinct (map fst ?d)" by blast
  with m e show ?thesis by blast
qed

section \<open>The keyed aggregation\<close>

lemma data_loop_keys:
  assumes "list_all2 (\<lambda>e k. reactant_names e = Inr (fst k) \<and> product_names e = Inr (snd k)) es ks"
  shows "data_loop es d =
     Inr (foldl (\<lambda>d (k, v). case map_of d k of None \<Rightarrow> dict_set d k v
                                | Some old \<Rightarrow> dict_set d k (old @ [CHR 0x0A] @ v))
            d (zip ks es))"
  using assms
proof (induction es ks arbitrary: d rule: list_all2_induct)
  case Nil
  show ?case by simp
next
  case (Cons e es k ks)
  obtain r p where k: "k = (r, p)" by (cases k)
  with Cons.hyps(1) have "reactant_names e = Inr r" "product_names e = Inr p" by simp_all
  then show ?case by (simp add: k Cons.IH Let_def)
qed

text \<open>
  Claim C8. For every reaction block whose entries all have reactant and product names
  (\<open>ks\<close> lists their keys, in the order of the entries), \<open>data_dct\<close> returns a dictionary
  with one entry for each key, whose value is the raw text of the entries with that key,
  in the order of the block and joined by a line feed. For a block of two entries: the
  dictionary is the single entry of the first text, a line feed and the second text
  when the keys are equal, and each entry under its own key when they differ.
\<close>

theorem data_dct_groups_by_key:
  assumes "list_all2 (\<lambda>e k. reactant_names e = Inr (fst k) \<and> product_names e = Inr (snd k))
             (data_strings headlined_sections block_str) ks"
  shows "\<exists>d. data_dct headlined_sections block_str ''strings'' = Inr d
     \<and> distinct (map fst d)
     \<and> (\<forall>k. map_of d k =
          (case map snd (filter (\<lambda>r. fst r = k) (zip ks (data_strings headlined_sections block_str))) of
             [] \<Rightarrow> None
           | e # es \<Rightarrow> Some (foldl (\<lambda>text string. text @ [CHR 0x0A] @ string) e es)))
     \<and> (\<forall>e1 e2 k1 k2. data_strings headlined_sections block_str = [e1, e2] \<and> ks = [k1, k2] \<longrightarrow>
          d = (if k1 = k2 then [(k1, e1 @ [CHR 0x0A] @ e2)] else [(k1, e1), (k2, e2)]))"
proof -
  let ?es = "data_strings headlined_sections block_str"
  let ?step = "\<lambda>d (k, v). case map_of d k of None \<Rightarrow> dict_set d k v
                                | Some old \<Rightarrow> dict_set d k (old @ [CHR 0x0A] @ v)"
  let ?d = "foldl ?step [] (zip ks ?es)"
  have res: "data_dct headlined_sections block_str ''strings'' = Inr ?d"
    by (simp add: data_dct_def Let_def data_loop_keys[OF assms])
  have dist: "distinct (map fst ?d)"
    by (rule collect_distinct[where unit = "\<lambda>v. v" and join = "\<lambda>old v. old @ [CHR 0x0A] @ v"]) simp
  have look: "map_of ?d k =
      (case map snd (filter (\<lambda>r. fst r = k) (zip ks ?es)) of
         [] \<Rightarrow> None
       | e # es \<Rightarrow> Some (foldl (\<lambda>text string. text @ [CHR 0x0A] @ string) e es))" for k
    using collect_lookup[where unit = "\<lambda>v. v" and join = "\<lambda>old v. old @ [CHR 0x0A] @ v"
        and ?d0.0 = "[]" and kvs = "zip ks ?es" and k = k]
    by (cases "map snd (filter (\<lambda>r. fst r = k) (zip ks ?es))") simp_all
  have two: "?d = (if k1 = k2 then [(k1, e1 @ [CHR 0x0A] @ e2)] else [(k1, e1), (k2, e2)])"
    if "?es = [e1, e2] \<and> ks = [k1, k2]" for e1 e2 k1 k2
    using that by simp
  from res dist look two show ?thesis by blast
qed

text \<open>
  A block of three entries, of which the first two share their key.
\<close>

theorem data_dct_groups_by_key_witness:
  "data_strings (\<lambda>s p. [''A=B 1 2 3'', ''A=B 4 5 6'', ''C=D 1 2 3'']) [] =
     [''A=B 1 2 3'', ''A=B 4 5 6'', ''C=D 1 2 3'']
   \<and> list_all2 (\<lambda>e k. reactant_names e = Inr (fst k) \<and> product_names e = Inr (snd k))
        [''A=B 1 2 3'', ''A=B 4 5 6'', ''C=D 1 2 3'']
        [([''A''], [''B'']), ([''A''], [''B'']), ([''C''], [''D''])]
   \<and> data_dct (\<lambda>s p. [''A=B 1 2 3'', ''A=B 4 5 6'', ''C=D 1 2 3'']) [] ''strings'' =
       Inr [(([''A''], [''B'']), ''A=B 1 2 3\<newline>A=B 4 5 6''), (([''C''], [''D'']), ''C=D 1 2 3'')]
   \<and> distinct (map fst [(([''A''], [''B'']), ''A=B 1 2 3\<newline>A=B 4 5 6''), (([''C''], [''D'']), ''C=D 1 2 3'')])"
proof -
  let ?hs = "\<lambda>(s::string) (p::regex). [''A=B 1 2 3'', ''A=B 4 5 6'', ''C=D 1 2 3'']"
  let ?d = "[(([''A''], [''B'']), ''A=B 1 2 3\<newline>A=B 4 5 6''), (([''C''], [''D'']), ''C=D 1 2 3'')]"
  have s: "data_strings ?hs [] = [''A=B 1 2 3'', ''A=B 4 5 6'', ''C=D 1 2 3'']"
    by (simp add: data_strings_def)
  have n: "reactant_names ''A=B 1 2 3'' = Inr [''A'']" "product_names ''A=B 1 2 3'' = Inr [''B'']"
      "reactant_names ''A=B 4 5 6'' = Inr [''A'']" "product_names ''A=B 4 5 6'' = Inr [''B'']"
      "reactant_names ''C=D 1 2 3'' = Inr [''C'']" "product_names ''C=D 1 2 3'' = Inr [''D'']"
    by code_simp+
  from n have k: "list_all2 (\<lambda>e k. reactant_names e = Inr (fst k) \<and> product_names e = Inr (snd k))
        [''A=B 1 2 3'', ''A=B 4 5 6'', ''C=D 1 2 3'']
        [([''A''], [''B'']), ([''A''], [''B'']), ([''C''], [''D''])]"
    by simp
  have e: "data_dct ?hs [] ''strings'' = Inr ?d" by code_simp
  from data_dct_groups_by_key[of ?hs "[]" "[([''A''], [''B'']), ([''A''], [''B'']), ([''C''], [''D''])]"] k s
  obtain d where d: "data_dct ?hs [] ''strings'' = Inr d" "distinct (map fst d)"
    by auto
  from d(1) e have "d = ?d" by simp
  with d(2) have "distinct (map fst ?d)" by blast
  with s k e show ?thesis by blast
qed

section \<open>High-pressure parameters\<close>

lemma high_p_groups:
  "ngroups (first_line_pattern SPECIES_NAMES_PATTERN SPECIES_NAMES_PATTERN (capturing COEFF_PATTERN)) = 1"
  by code_simp

lemma found_of_one_group:
  assumes "r \<in> set (finditer p s)" and "ngroups p = 1"
  shows "found_of r = Text (group_text (hd (snd (snd (snd r)))))"
proof -
  obtain i j m gs where rr: "r = (i, j, m, gs)" by (cases r) auto
  from finditer_at_groups[OF assms(1)[unfolded finditer_def]] rr assms(2) have "length gs = 1" by simp
  then obtain g where "gs = [g]" by (cases gs) auto
  with rr show ?thesis by (simp add: found_of_def)
qed

lemma sequence_total_map: "sequence (map (\<lambda>x. Inr (h x)) xs) = Inr (map h xs)"
  by (induction xs) auto

text \<open>
  Claim C9. For every entry, \<open>high_p_parameters\<close> returns \<^verbatim>\<open>None\<close> exactly when the
  first-line pattern has no match in the entry. The matches it collects are all those
  that \<^verbatim>\<open>findall\<close> finds from the left, in the order of the text; with a cast \<open>g\<close> that
  does not raise, the result lists, match by match and in that order, the cast of the
  words of the captured coefficient text.
\<close>

theorem high_p_parameters_all_matches:
  "(high_p_parameters ap_cast s = Inr None) =
      (\<not> has_match (first_line_pattern SPECIES_NAMES_PATTERN SPECIES_NAMES_PATTERN
                       (capturing COEFF_PATTERN)) s)
   \<and> ordered_from 0 (finditer (first_line_pattern SPECIES_NAMES_PATTERN SPECIES_NAMES_PATTERN
                       (capturing COEFF_PATTERN)) s)
   \<and> high_p_parameters (\<lambda>ws. Inr (g ws)) s =
       Inr (if finditer (first_line_pattern SPECIES_NAMES_PATTERN SPECIES_NAMES_PATTERN
                       (capturing COEFF_PATTERN)) s = [] then None
            else Some (map (\<lambda>r. g (py_split (group_text (hd (snd (snd (snd r)))))))
                        (finditer (first_line_pattern SPECIES_NAMES_PATTERN SPECIES_NAMES_PATTERN
                       (capturing COEFF_PATTERN)) s)))"
proof (intro conjI)
  let ?p = "first_line_pattern SPECIES_NAMES_PATTERN SPECIES_NAMES_PATTERN (capturing COEFF_PATTERN)"
  show "(high_p_parameters ap_cast s = Inr None) = (\<not> has_match ?p s)"
  proof (cases "all_captures ?p s = []")
    case True
    then show ?thesis by (simp add: high_p_parameters_def all_captures_empty[symmetric])
  next
    case False
    have "and_then m (\<lambda>params. Inr (Some params)) \<noteq> Inr None" for m :: "error + 'a list"
      by (cases m) auto
    with False show ?thesis
      by (simp add: high_p_parameters_def Let_def all_captures_empty[symmetric])
  qed
  show "ordered_from 0 (finditer ?p s)"
    unfolding finditer_def by (rule finditer_at_ordered)
  have eq: "map (\<lambda>string. and_then (words_of string) (\<lambda>ws. Inr (g ws))) (all_captures ?p s) =
      map (\<lambda>r. Inr (g (py_split (group_text (hd (snd (snd (snd r)))))))) (finditer ?p s)"
    unfolding all_captures_def map_map
    by (rule map_cong[OF refl]) (simp add: found_of_one_group[OF _ high_p_groups])
  have sq: "sequence (map (\<lambda>string. and_then (words_of string) (\<lambda>ws. Inr (g ws))) (all_captures ?p s)) =
      Inr (map (\<lambda>r. g (py_split (group_text (hd (snd (snd (snd r))))))) (finditer ?p s))"
    unfolding eq by (rule sequence_total_map)
  have em: "(all_captures ?p s = []) = (finditer ?p s = [])"
    by (simp add: all_captures_def)
  show "high_p_parameters (\<lambda>ws. Inr (g ws)) s =
       Inr (if finditer ?p s = [] then None
            else Some (map (\<lambda>r. g (py_split (group_text (hd (snd (snd (snd r))))))) (finditer ?p s)))"
    unfolding high_p_parameters_def Let_def sq em by simp
qed

text \<open>
  An entry with two lines of the shape of a first line: both coefficient triples are
  returned, in the order of the text.
\<close>

theorem high_p_parameters_all_matches_witness:
  "has_match (first_line_pattern SPECIES_NAMES_PATTERN SPECIES_NAMES_PATTERN
                (capturing COEFF_PATTERN)) ''A=B 1 2 3\<newline>C=D 4 5 6''
   \<and> finditer (first_line_pattern SPECIES_NAMES_PATTERN SPECIES_NAMES_PATTERN
                (capturing COEFF_PATTERN)) ''A=B 1 2 3\<newline>C=D 4 5 6'' =
       [(0, 9, ''A=B 1 2 3'', [Some ''1 2 3'']), (10, 19, ''C=D 4 5 6'', [Some ''4 5 6''])]
   \<and> high_p_parameters (\<lambda>ws. Inr ws) ''A=B 1 2 3\<newline>C=D 4 5 6'' =
       Inr (Some [[''1'', ''2'', ''3''], [''4'', ''5'', ''6'']])"
proof -
  let ?p = "first_line_pattern SPECIES_NAMES_PATTERN SPECIES_NAMES_PATTERN (capturing COEFF_PATTERN)"
  let ?s = "''A=B 1 2 3\<newline>C=D 4 5 6''"
  have f: "finditer ?p ?s =
      [(0, 9, ''A=B 1 2 3'', [Some ''1 2 3'']), (10, 19, ''C=D 4 5 6'', [Some ''4 5 6''])]"
    by code_simp
  have w: "py_split ''1 2 3'' = [''1'', ''2'', ''3'']" "py_split ''4 5 6'' = [''4'', ''5'', ''6'']"
    by code_simp+
  note t = high_p_parameters_all_matches[of "\<lambda>ws. Inr ws" ?s "\<lambda>ws. ws"]
  from t have e: "high_p_parameters (\<lambda>ws. Inr ws) ?s =
       Inr (Some [[''1'', ''2'', ''3''], [''4'', ''5'', ''6'']])"
    by (simp add: f w group_text_def)
  with t have "has_match ?p ?s" by simp
  with f e show ?thesis by blast
qed

section \<open>The first-line pattern\<close>

lemma first_line_pattern_unfold:
  "first_line_pattern rct_ptt prd_ptt coeff_ptt =
     Then rct_ptt (Then (padded CHEMKIN_ARROW) (Then prd_ptt (Then LINESPACES coeff_ptt)))"
  by (simp add: first_line_pattern_def)

lemma species_patterns_avoid_newline:
  "avoids (CHR 0x0A) SPECIES_NAMES_PATTERN"
  "avoids (CHR 0x0A) (capturing SPECIES_NAMES_PATTERN)"
  "avoids (CHR 0x0A) COEFF_PATTERN"
  "avoids (CHR 0x0A) (capturing COEFF_PATTERN)"
  "avoids (CHR 0x0A) (padded CHEMKIN_ARROW)"
  "avoids (CHR 0x0A) LINESPACES"
  by code_simp+

text \<open>
  Claim C4, as amended. \<^verbatim>\<open>_first_line_pattern\<close> is the reactants pattern, the padded
  arrow, the products pattern, \<^verbatim>\<open>LINESPACES\<close> and the coefficient pattern. For every
  entry and every match of it, whichever of the three parts is capturing: the match
  ends with a text \<open>c\<close> that the coefficient pattern matches, and \<open>c\<close> is preceded by one
  or more spaces or tabs, not by a line break. With the species and coefficient
  patterns of the module the match contains no line feed at all: the coefficients are
  on the line of the reaction equation.
\<close>

theorem first_line_pattern_same_line:
  assumes "(i, j, m, gs) \<in> set (finditer (first_line_pattern rct_ptt prd_ptt coeff_ptt) s)"
  shows "\<exists>u w c. m = u @ w @ c \<and> w \<noteq> [] \<and> set w \<subseteq> {CHR '' '', CHR 0x09}
     \<and> (\<exists>b k rest cs cs'. (k + length c, rest, cs') \<in> set (mt coeff_ptt b (k, c @ rest, cs)))
     \<and> (avoids (CHR 0x0A) rct_ptt \<and> avoids (CHR 0x0A) prd_ptt \<and> avoids (CHR 0x0A) coeff_ptt
           \<longrightarrow> CHR 0x0A \<notin> set m)"
proof -
  let ?P = "first_line_pattern rct_ptt prd_ptt coeff_ptt"
  from finditer_at_sound[OF assms[unfolded finditer_def]] obtain u0 v s' where
    v: "s = u0 @ v" "i = 0 + length u0" "(j, s', gs) \<in> set (attempts ?P i v)" "m = take (j - i) v"
    by blast
  let ?c0 = "replicate (ngroups ?P) None"
  from v(3) have all: "(j, s', gs) \<in> set (mt ?P 0 (i, v, ?c0))" by (simp add: attempts_def)
  from mt_step[OF all] obtain wm where wm: "v = wm @ s'" "j = i + length wm" by blast
  with v(4) have m: "m = wm" by simp
  from all obtain k1 s1 c1 where
    1: "(k1, s1, c1) \<in> set (mt rct_ptt 0 (i, v, ?c0))" and
    r1: "(j, s', gs) \<in> set (mt (Then (padded CHEMKIN_ARROW) (Then prd_ptt (Then LINESPACES coeff_ptt)))
                                (0 + ngroups rct_ptt) (k1, s1, c1))"
    unfolding first_line_pattern_unfold by (rule mt_Then_elim)
  from r1 obtain k2 s2 c2 where
    2: "(k2, s2, c2) \<in> set (mt (padded CHEMKIN_ARROW) (0 + ngroups rct_ptt) (k1, s1, c1))" and
    r2: "(j, s', gs) \<in> set (mt (Then prd_ptt (Then LINESPACES coeff_ptt))
                                (0 + ngroups rct_ptt + ngroups (padded CHEMKIN_ARROW)) (k2, s2, c2))"
    by (rule mt_Then_elim)
  from r2 obtain k3 s3 c3 where
    3: "(k3, s3, c3) \<in> set (mt prd_ptt (0 + ngroups rct_ptt + ngroups (padded CHEMKIN_ARROW)) (k2, s2, c2))" and
    r3: "(j, s', gs) \<in> set (mt (Then LINESPACES coeff_ptt)
                                (0 + ngroups rct_ptt + ngroups (padded CHEMKIN_ARROW) + ngroups prd_ptt) (k3, s3, c3))"
    by (rule mt_Then_elim)
  from r3 obtain k4 s4 c4 where
    4: "(k4, s4, c4) \<in> set (mt LINESPACES
           (0 + ngroups rct_ptt + ngroups (padded CHEMKIN_ARROW) + ngroups prd_ptt) (k3, s3, c3))" and
    5: "(j, s', gs) \<in> set (mt coeff_ptt
           (0 + ngroups rct_ptt + ngroups (padded CHEMKIN_ARROW) + ngroups prd_ptt + ngroups LINESPACES)
           (k4, s4, c4))"
    by (rule mt_Then_elim)
  from mt_step[OF 1] obtain w1 where w1: "v = w1 @ s1" by blast
  from mt_step[OF 2] obtain w2 where w2: "s1 = w2 @ s2" by blast
  from mt_step[OF 3] obtain w3 where w3: "s2 = w3 @ s3" by blast
  from mt_LINESPACES[OF 4] obtain w4 where
    w4: "s3 = w4 @ s4" "w4 \<noteq> []" "set w4 \<subseteq> {CHR '' '', CHR 0x09}" by blast
  from mt_step[OF 5] obtain w5 where w5: "s4 = w5 @ s'" "j = k4 + length w5" by blast
  from w1 w2 w3 w4(1) w5(1) wm(1) have dec: "wm = (w1 @ w2 @ w3) @ w4 @ w5" by simp
  from 5 w5 have co: "(k4 + length w5, s', gs) \<in> set (mt coeff_ptt
           (0 + ngroups rct_ptt + ngroups (padded CHEMKIN_ARROW) + ngroups prd_ptt + ngroups LINESPACES)
           (k4, w5 @ s', c4))"
    by simp
  have nl: "CHR 0x0A \<notin> set m"
    if av: "avoids (CHR 0x0A) rct_ptt \<and> avoids (CHR 0x0A) prd_ptt \<and> avoids (CHR 0x0A) coeff_ptt"
  proof -
    from av have "avoids (CHR 0x0A) ?P"
      unfolding first_line_pattern_unfold by (simp add: species_patterns_avoid_newline)
    from mt_avoids[OF all this wm(1)] m show ?thesis by simp
  qed
  from m dec w4(2,3) co nl show ?thesis by blast
qed

text \<open>
  The entry \<^verbatim>\<open>A=B 1 2 3\<close>, with the patterns of \<open>high_p_parameters\<close>.
\<close>

theorem first_line_pattern_same_line_witness:
  "(0, 9, ''A=B 1 2 3'', [Some ''1 2 3'']) \<in> set (finditer
      (first_line_pattern SPECIES_NAMES_PATTERN SPECIES_NAMES_PATTERN (capturing COEFF_PATTERN))
      ''A=B 1 2 3'')
   \<and> CHR 0x0A \<notin> set ''A=B 1 2 3''"
proof -
  have f: "(0, 9, ''A=B 1 2 3'', [Some ''1 2 3'']) \<in> set (finditer
      (first_line_pattern SPECIES_NAMES_PATTERN SPECIES_NAMES_PATTERN (capturing COEFF_PATTERN))
      ''A=B 1 2 3'')"
    by code_simp
  from first_line_pattern_same_line[OF f] species_patterns_avoid_newline
  have "CHR 0x0A \<notin> set ''A=B 1 2 3''" by blast
  with f show ?thesis by blast
qed

text \<open>
  With the coefficients on the line after the equation the pattern has no match:
  \<open>high_p_parameters\<close> returns \<^verbatim>\<open>None\<close> and \<open>reactant_names\<close> raises. With the
  coefficients on the line of the equation both succeed.
\<close>

theorem first_line_wraps_counterexample:
  "\<not> has_match (first_line_pattern SPECIES_NAMES_PATTERN SPECIES_NAMES_PATTERN COEFF_PATTERN)
        ''A=B\<newline>1 2 3''
   \<and> high_p_parameters (\<lambda>ws. Inr ws) ''A=B\<newline>1 2 3'' = Inr None
   \<and> reactant_names ''A=B\<newline>1 2 3'' = Inl TypeError
   \<and> high_p_parameters (\<lambda>ws. Inr ws) ''A=B 1 2 3'' = Inr (Some [[''1'', ''2'', ''3'']])
   \<and> reactant_names ''A=B 1 2 3'' = Inr [''A'']"
  by code_simp

section \<open>Bath-gas efficiency factors\<close>

text \<open>
  A line qualifies when none of the \<open>bad_strings\<close> has a match in it. Every pair that the
  factor pattern finds has two texts: the species and the number.
\<close>

lemma factor_groups: "ngroups factor_pattern = 2"
  by code_simp

lemma factor_item_length:
  "bath \<in> set (all_captures factor_pattern line) \<Longrightarrow> length (iter_found bath) = 2"
  using all_captures_shape[of bath factor_pattern line] by (auto simp: factor_groups)

lemma bath_loop_total:
  assumes "\<forall>bath \<in> set baths. length (iter_found bath) = 2"
  shows "bath_loop (\<lambda>t. Inr (f t)) baths d =
     Inr (foldl (\<lambda>d bath. dict_set d (iter_found bath ! 0) (f (iter_found bath ! 1))) d baths)"
  using assms
proof (induction baths arbitrary: d)
  case Nil
  show ?case by simp
next
  case (Cons bath baths)
  from Cons.prems have "length (iter_found bath) = 2" by simp
  then obtain b0 b1 where b: "iter_found bath = [b0, b1]"
    by (cases "iter_found bath"; cases "tl (iter_found bath)") auto
  from Cons.prems have rest: "\<forall>bath \<in> set baths. length (iter_found bath) = 2" by simp
  show ?case by (simp add: b Cons.IH[OF rest])
qed

lemma line_loop_total:
  "line_loop (\<lambda>t. Inr (f t)) lines factors =
     Inr (case rev (filter (\<lambda>line. \<not> list_ex (\<lambda>string. has_match string line) bad_strings
                               \<and> all_captures factor_pattern line \<noteq> []) lines) of
            [] \<Rightarrow> factors
          | line # _ \<Rightarrow> Some (foldl (\<lambda>d bath. dict_set d (iter_found bath ! 0) (f (iter_found bath ! 1)))
                                [] (all_captures factor_pattern line)))"
proof (induction lines arbitrary: factors)
  case Nil
  show ?case by simp
next
  case (Cons line lines)
  let ?Q = "\<lambda>line. \<not> list_ex (\<lambda>string. has_match string line) bad_strings
                               \<and> all_captures factor_pattern line \<noteq> []"
  have bl: "bath_loop (\<lambda>t. Inr (f t)) (all_captures factor_pattern line) [] =
      Inr (foldl (\<lambda>d bath. dict_set d (iter_found bath ! 0) (f (iter_found bath ! 1)))
             [] (all_captures factor_pattern line))"
    by (rule bath_loop_total) (simp add: factor_item_length)
  show ?case
  proof (cases "?Q line")
    case True
    then show ?thesis
      by (cases "rev (filter ?Q lines)") (simp_all add: Let_def bl Cons.IH)
  next
    case False
    then show ?thesis
      by (auto simp: Let_def Cons.IH)
  qed
qed

lemma dict_set_last_wins:
  "map_of (foldl (\<lambda>d kv. dict_set d (fst kv) (snd kv)) d kvs) k =
     (case map_of (rev kvs) k of None \<Rightarrow> map_of d k | Some v \<Rightarrow> Some v)"
proof (induction kvs arbitrary: d)
  case Nil
  show ?case by simp
next
  case (Cons kv kvs)
  show ?case
    by (simp add: Cons.IH map_of_dict_set map_add_def[symmetric] split: option.splits)
       (auto simp: map_add_def split: option.splits)
qed

text \<open>
  Claim C3, as amended. For every entry and every conversion \<open>f\<close> of numeral texts to
  floats: when the entry contains \<^verbatim>\<open>LOW\<close> or \<^verbatim>\<open>TROE\<close>, \<open>buffer_enhance_factors\<close> returns
  the pairs of the last qualifying line that has a pair, and \<^verbatim>\<open>None\<close> when there is no
  such line; the pairs of the qualifying lines before it are dropped, since a line with
  pairs starts the dictionary again. Within that line the last factor of a species
  wins. Without \<^verbatim>\<open>LOW\<close> and \<^verbatim>\<open>TROE\<close> the result is \<^verbatim>\<open>None\<close>.
\<close>

theorem buffer_enhance_factors_last_line:
  "buffer_enhance_factors (\<lambda>t. Inr (f t)) s =
     Inr (if has_match (Lit ''LOW'') s \<or> has_match (Lit ''TROE'') s then
            (case rev (filter (\<lambda>line. \<not> list_ex (\<lambda>string. has_match string line) bad_strings
                                      \<and> all_captures factor_pattern line \<noteq> []) (splitlines s)) of
               [] \<Rightarrow> None
             | line # _ \<Rightarrow>
                 Some (foldl (\<lambda>d bath. dict_set d (iter_found bath ! 0) (f (iter_found bath ! 1)))
                         [] (all_captures factor_pattern line)))
          else None)
   \<and> (\<forall>line k.
         map_of (foldl (\<lambda>d bath. dict_set d (iter_found bath ! 0) (f (iter_found bath ! 1)))
                   [] (all_captures factor_pattern line)) k =
         map_of (rev (map (\<lambda>bath. (iter_found bath ! 0, f (iter_found bath ! 1)))
                        (all_captures factor_pattern line))) k)
   \<and> (\<forall>line. \<forall>bath \<in> set (all_captures factor_pattern line). length (iter_found bath) = 2)"
proof (intro conjI allI ballI)
  show "buffer_enhance_factors (\<lambda>t. Inr (f t)) s =
     Inr (if has_match (Lit ''LOW'') s \<or> has_match (Lit ''TROE'') s then
            (case rev (filter (\<lambda>line. \<not> list_ex (\<lambda>string. has_match string line) bad_strings
                                      \<and> all_captures factor_pattern line \<noteq> []) (splitlines s)) of
               [] \<Rightarrow> None
             | line # _ \<Rightarrow>
                 Some (foldl (\<lambda>d bath. dict_set d (iter_found bath ! 0) (f (iter_found bath ! 1)))
                         [] (all_captures factor_pattern line)))
          else None)"
    by (simp add: buffer_enhance_factors_def line_loop_total)
next
  fix line k
  have "foldl (\<lambda>d bath. dict_set d (iter_found bath ! 0) (f (iter_found bath ! 1))) d baths =
      foldl (\<lambda>d kv. dict_set d (fst kv) (snd kv)) d
        (map (\<lambda>bath. (iter_found bath ! 0, f (iter_found bath ! 1))) baths)" for d baths
    by (induction baths arbitrary: d) simp_all
  then show "map_of (foldl (\<lambda>d bath. dict_set d (iter_found bath ! 0) (f (iter_found bath ! 1)))
                   [] (all_captures factor_pattern line)) k =
         map_of (rev (map (\<lambda>bath. (iter_found bath ! 0, f (iter_found bath ! 1)))
                        (all_captures factor_pattern line))) k"
    by (simp add: dict_set_last_wins split: option.splits)
next
  fix line bath assume "bath \<in> set (all_captures factor_pattern line)"
  then show "length (iter_found bath) = 2" by (rule factor_item_length)
qed

text \<open>
  One qualifying line with two factors for \<^verbatim>\<open>H2\<close>: the later one is kept.
\<close>

theorem buffer_enhance_factors_last_line_witness:
  "has_match (Lit ''LOW'') ''A+B=C 1 2 3\<newline>LOW / 1 2 3 /\<newline>H2/2.0/ O2/3.0/ H2/4/''
   \<and> filter (\<lambda>line. \<not> list_ex (\<lambda>string. has_match string line) bad_strings
                     \<and> all_captures factor_pattern line \<noteq> [])
        (splitlines ''A+B=C 1 2 3\<newline>LOW / 1 2 3 /\<newline>H2/2.0/ O2/3.0/ H2/4/'') =
       [''H2/2.0/ O2/3.0/ H2/4/'']
   \<and> all_captures factor_pattern ''H2/2.0/ O2/3.0/ H2/4/'' =
       [Texts [''H2'', ''2.0''], Texts [''O2'', ''3.0''], Texts [''H2'', ''4'']]
   \<and> buffer_enhance_factors (\<lambda>t. Inr t) ''A+B=C 1 2 3\<newline>LOW / 1 2 3 /\<newline>H2/2.0/ O2/3.0/ H2/4/'' =
       Inr (Some [(''H2'', ''4''), (''O2'', ''3.0'')])"
proof -
  let ?s = "''A+B=C 1 2 3\<newline>LOW / 1 2 3 /\<newline>H2/2.0/ O2/3.0/ H2/4/''"
  have m: "has_match (Lit ''LOW'') ?s" by code_simp
  have q: "filter (\<lambda>line. \<not> list_ex (\<lambda>string. has_match string line) bad_strings
                     \<and> all_captures factor_pattern line \<noteq> []) (splitlines ?s) =
       [''H2/2.0/ O2/3.0/ H2/4/'']"
    by code_simp
  have a: "all_captures factor_pattern ''H2/2.0/ O2/3.0/ H2/4/'' =
       [Texts [''H2'', ''2.0''], Texts [''O2'', ''3.0''], Texts [''H2'', ''4'']]"
    by code_simp
  from buffer_enhance_factors_last_line[of "\<lambda>t. t" ?s]
  have "buffer_enhance_factors (\<lambda>t. Inr t) ?s =
     Inr (if has_match (Lit ''LOW'') ?s \<or> has_match (Lit ''TROE'') ?s then
            (case rev (filter (\<lambda>line. \<not> list_ex (\<lambda>string. has_match string line) bad_strings
                                      \<and> all_captures factor_pattern line \<noteq> []) (splitlines ?s)) of
               [] \<Rightarrow> None
             | line # _ \<Rightarrow>
                 Some (foldl (\<lambda>d bath. dict_set d (iter_found bath ! 0) (iter_found bath ! 1))
                         [] (all_captures factor_pattern line)))
          else None)"
    by blast
  then have e: "buffer_enhance_factors (\<lambda>t. Inr t) ?s = Inr (Some [(''H2'', ''4''), (''O2'', ''3.0'')])"
    unfolding q by (simp add: m a)
  from m q a e show ?thesis by blast
qed

text \<open>
  Two qualifying lines with pairs: the result holds \<^verbatim>\<open>AR\<close> only. \<^verbatim>\<open>H2\<close> and \<^verbatim>\<open>O2\<close>,
  found on the line before, are not merged into it.
\<close>

theorem buffer_factors_two_lines_counterexample:
  "has_match (Lit ''LOW'') ''A+B=C 1 2 3\<newline>LOW / 1 2 3 /\<newline>H2/2.0/ O2/3.0/\<newline>AR/0.7/''
   \<and> filter (\<lambda>line. \<not> list_ex (\<lambda>string. has_match string line) bad_strings)
        (splitlines ''A+B=C 1 2 3\<newline>LOW / 1 2 3 /\<newline>H2/2.0/ O2/3.0/\<newline>AR/0.7/'') =
       [''H2/2.0/ O2/3.0/'', ''AR/0.7/'']
   \<and> buffer_enhance_factors (\<lambda>t. Inr t)
        ''A+B=C 1 2 3\<newline>LOW / 1 2 3 /\<newline>H2/2.0/ O2/3.0/\<newline>AR/0.7/'' =
       Inr (Some [(''AR'', ''0.7'')])"
  by code_simp

section \<open>Splitting a reagent text\<close>
















text \<open>
  In a text of tokens joined by \<^verbatim>\<open>+\<close>, where no token after the first starts with
  \<^verbatim>\<open>M\<close>, the markers \<^verbatim>\<open>+M\<close> and \<^verbatim>\<open>(+M)\<close> occur nowhere, and the splitting pattern
  matches at the joining \<^verbatim>\<open>+\<close> only.
\<close>

lemma join_plus_Cons: "ts \<noteq> [] \<Longrightarrow> join_plus (t # ts) = t @ CHR ''+'' # join_plus ts"
  by (cases ts) simp_all

















end
